theory Spec2Isabelle
  imports Main
begin

section \<open>Python values used by \<^verbatim>\<open>src/utils/date_utils.py\<close>\<close>

text \<open>
  Strings are ASCII text (\<^typ>\<open>string\<close>). Python's \<^verbatim>\<open>\d\<close> and \<^verbatim>\<open>int()\<close> also accept
  the decimal digits of other scripts; such characters are outside this development, which reads
  every non-ASCII byte as a non-digit.

  Every exception the module can meet is a value of \<open>error\<close>; the first four are Python's
  \<^verbatim>\<open>ValueError\<close> with the message each raise site builds, \<open>ParserError\<close> is what the
  \<^verbatim>\<open>dateutil\<close> library raises, and \<open>TypeError\<close> is raised by the comparison of a naive
  with a timezone-aware datetime.
\<close>

datatype error =
    NoMatch string string
  | Unconverted string
  | OutOfRange
  | InvalidLiteral string
  | ParserError string
  | TypeError

text \<open>
  A \<^verbatim>\<open>datetime.datetime\<close>: its seven fields and its timezone. \<open>utcoffset\<close> is \<open>None\<close>
  for a naive value (\<^verbatim>\<open>tzinfo is None\<close>); for an aware value it is the offset from UTC, in
  seconds, of its fixed-offset \<^verbatim>\<open>tzinfo\<close> (\<^verbatim>\<open>tzutc()\<close>, \<^verbatim>\<open>tzoffset(...)\<close>).
\<close>

record datetime =
  year :: nat
  month :: nat
  day :: nat
  hour :: nat
  minute :: nat
  second :: nat
  microsecond :: nat
  utcoffset :: "int option"

datatype page_format = MDY | DMY

subsection \<open>Digits and \<^verbatim>\<open>int()\<close>\<close>

definition is_digit :: "char \<Rightarrow> bool" where
  "is_digit c = (48 \<le> (of_char c :: nat) \<and> (of_char c :: nat) \<le> 57)"

definition digit_val :: "char \<Rightarrow> nat" where
  "digit_val c = of_char c - 48"

definition digit_char :: "nat \<Rightarrow> char" where
  "digit_char n = char_of (48 + n)"

text \<open>
  The characters \<^verbatim>\<open>int()\<close> strips: tab, newline, vertical tab, form feed, carriage return
  and the space.
\<close>

definition is_space :: "char \<Rightarrow> bool" where
  "is_space c = (let n = (of_char c :: nat) in (9 \<le> n \<and> n \<le> 13) \<or> n = 32)"

definition strip :: "string \<Rightarrow> string" where
  "strip s = rev (dropWhile is_space (rev (dropWhile is_space s)))"

text \<open>
  The digits of a literal: decimal digits, with single underscores allowed between two digits.
  The flag says whether the previous character was a digit.
\<close>

fun literal_digits :: "bool \<Rightarrow> string \<Rightarrow> string option" where
  "literal_digits prev [] = (if prev then Some [] else None)"
| "literal_digits prev (c # cs) =
     (if is_digit c then map_option (Cons c) (literal_digits True cs)
      else if c = CHR ''_'' \<and> prev then literal_digits False cs
      else None)"

definition digits_val :: "string \<Rightarrow> nat" where
  "digits_val ds = foldl (\<lambda>acc c. 10 * acc + digit_val c) 0 ds"

text \<open>
  \<^verbatim>\<open>int(text)\<close> in base 10: surrounding whitespace is stripped, one sign is allowed, and a
  literal of more than 4300 digits is refused (CPython's limit on integer string conversion).
\<close>

definition py_int :: "string \<Rightarrow> error + int" where
  "py_int text =
     (let t = strip text;
          (neg, body) = (case t of
              c # cs \<Rightarrow> if c = CHR ''-'' then (True, cs) else if c = CHR ''+'' then (False, cs) else (False, t)
            | [] \<Rightarrow> (False, t))
      in case literal_digits False body of
           None \<Rightarrow> Inl (InvalidLiteral text)
         | Some ds \<Rightarrow>
             if length ds > 4300 then Inl (InvalidLiteral text)
             else Inr (if neg then - int (digits_val ds) else int (digits_val ds)))"

subsection \<open>\<^verbatim>\<open>re.split(r"[/\-\.]", s)\<close>\<close>

definition is_sep :: "char \<Rightarrow> bool" where
  "is_sep c = (c = CHR ''/'' \<or> c = CHR ''-'' \<or> c = CHR ''.'')"

fun re_split :: "string \<Rightarrow> string list" where
  "re_split [] = [[]]"
| "re_split (c # cs) =
     (if is_sep c then [] # re_split cs
      else (case re_split cs of [] \<Rightarrow> [[c]] | w # ws \<Rightarrow> (c # w) # ws))"

subsection \<open>Regular expressions of \<^verbatim>\<open>_strptime\<close>\<close>

text \<open>
  The atoms the patterns are made of: \<^verbatim>\<open>\d\<close>, a range \<^verbatim>\<open>[a-b]\<close> and a literal character.
  An alternative is a sequence of atoms; a directive is a list of alternatives, tried in order.
\<close>

datatype cclass = Digit | Range char char | Exactly char

fun in_class :: "cclass \<Rightarrow> char \<Rightarrow> bool" where
  "in_class Digit c = is_digit c"
| "in_class (Range a b) c = ((of_char a :: nat) \<le> of_char c \<and> (of_char c :: nat) \<le> of_char b)"
| "in_class (Exactly a) c = (c = a)"

fun match_alt :: "cclass list \<Rightarrow> string \<Rightarrow> (string \<times> string) option" where
  "match_alt [] s = Some ([], s)"
| "match_alt (k # ks) [] = None"
| "match_alt (k # ks) (c # cs) =
     (if in_class k c
      then (case match_alt ks cs of None \<Rightarrow> None | Some (m, r) \<Rightarrow> Some (c # m, r))
      else None)"

text \<open>
  \<^verbatim>\<open>'d': r"(?P<d>3[0-1]|[1-2]\d|0[1-9]|[1-9]| [1-9])"\<close>,
  \<^verbatim>\<open>'m': r"(?P<m>1[0-2]|0[1-9]|[1-9])"\<close>,
  \<^verbatim>\<open>'Y': r"(?P<Y>\d\d\d\d)"\<close>. The module uses no other directive.
\<close>

definition directive_alts :: "char \<Rightarrow> cclass list list" where
  "directive_alts d =
     (if d = CHR ''d'' then
        [[Exactly CHR ''3'', Range CHR ''0'' CHR ''1''],
         [Range CHR ''1'' CHR ''2'', Digit],
         [Exactly CHR ''0'', Range CHR ''1'' CHR ''9''],
         [Range CHR ''1'' CHR ''9''],
         [Exactly CHR '' '', Range CHR ''1'' CHR ''9'']]
      else if d = CHR ''m'' then
        [[Exactly CHR ''1'', Range CHR ''0'' CHR ''2''],
         [Exactly CHR ''0'', Range CHR ''1'' CHR ''9''],
         [Range CHR ''1'' CHR ''9'']]
      else if d = CHR ''Y'' then [[Digit, Digit, Digit, Digit]]
      else [])"

datatype tok = Lit char | Dir char

fun fmt_tokens :: "string \<Rightarrow> tok list" where
  "fmt_tokens [] = []"
| "fmt_tokens [c] = [Lit c]"
| "fmt_tokens (c # d # cs) =
     (if c = CHR ''%'' then Dir d # fmt_tokens cs else Lit c # fmt_tokens (d # cs))"

text \<open>
  \<^verbatim>\<open>format_regex.match(data_string)\<close>: a backtracking match from the start of the string.
  It returns the groups found and the text after the match; a later alternative of a directive
  is tried when the rest of the pattern fails after an earlier one.
\<close>

fun match_toks :: "tok list \<Rightarrow> string \<Rightarrow> ((char \<times> string) list \<times> string) option"
  and match_alts :: "char \<Rightarrow> cclass list list \<Rightarrow> tok list \<Rightarrow> string \<Rightarrow> ((char \<times> string) list \<times> string) option"
where
  "match_toks [] s = Some ([], s)"
| "match_toks (Lit c # ts) s =
     (case s of [] \<Rightarrow> None | x # xs \<Rightarrow> if x = c then match_toks ts xs else None)"
| "match_toks (Dir d # ts) s = match_alts d (directive_alts d) ts s"
| "match_alts d [] ts s = None"
| "match_alts d (a # as) ts s =
     (case match_alt a s of
        None \<Rightarrow> match_alts d as ts s
      | Some (m, r) \<Rightarrow>
          (case match_toks ts r of
             None \<Rightarrow> match_alts d as ts s
           | Some (g, r') \<Rightarrow> Some ((d, m) # g, r')))"

subsection \<open>\<^verbatim>\<open>datetime\<close> construction, \<^verbatim>\<open>strptime\<close> and \<^verbatim>\<open>strftime\<close>\<close>

definition is_leap :: "nat \<Rightarrow> bool" where
  "is_leap y = (y mod 4 = 0 \<and> (y mod 100 \<noteq> 0 \<or> y mod 400 = 0))"

definition days_in_month :: "nat \<Rightarrow> nat \<Rightarrow> nat" where
  "days_in_month y m =
     (if m = 2 then (if is_leap y then 29 else 28)
      else if m = 4 \<or> m = 6 \<or> m = 9 \<or> m = 11 then 30 else 31)"

text \<open>What \<^verbatim>\<open>datetime_date(year, month, day)\<close> accepts.\<close>

definition valid_date :: "nat \<Rightarrow> nat \<Rightarrow> nat \<Rightarrow> bool" where
  "valid_date y m d =
     (1 \<le> y \<and> y \<le> 9999 \<and> 1 \<le> m \<and> m \<le> 12 \<and> 1 \<le> d \<and> d \<le> days_in_month y m)"

text \<open>\<^verbatim>\<open>datetime(y, m, d)\<close>: the date at midnight, naive.\<close>

definition date_of :: "nat \<Rightarrow> nat \<Rightarrow> nat \<Rightarrow> datetime" where
  "date_of y m d =
     \<lparr>year = y, month = m, day = d, hour = 0, minute = 0, second = 0, microsecond = 0,
      utcoffset = None\<rparr>"

text \<open>
  The value of a group the pattern found; a directive absent from the format keeps the default
  of \<^verbatim>\<open>_strptime\<close> (year 1900, month 1, day 1).
\<close>

definition group_int :: "(char \<times> string) list \<Rightarrow> char \<Rightarrow> int \<Rightarrow> error + int" where
  "group_int found d dflt =
     (case map_of found d of None \<Rightarrow> Inr dflt | Some txt \<Rightarrow> py_int txt)"

definition strptime :: "string \<Rightarrow> string \<Rightarrow> error + datetime" where
  "strptime data_string fmt =
     (case match_toks (fmt_tokens fmt) data_string of
        None \<Rightarrow> Inl (NoMatch data_string fmt)
      | Some (found, rest) \<Rightarrow>
          if rest \<noteq> [] then Inl (Unconverted rest)
          else (case group_int found CHR ''Y'' 1900 of Inl e \<Rightarrow> Inl e | Inr y \<Rightarrow>
                (case group_int found CHR ''m'' 1 of Inl e \<Rightarrow> Inl e | Inr m \<Rightarrow>
                (case group_int found CHR ''d'' 1 of Inl e \<Rightarrow> Inl e | Inr d \<Rightarrow>
                   if 0 \<le> y \<and> 0 \<le> m \<and> 0 \<le> d \<and> valid_date (nat y) (nat m) (nat d)
                   then Inr (date_of (nat y) (nat m) (nat d))
                   else Inl OutOfRange))))"

text \<open>A number below 100 in two digits, zero-padded.\<close>

definition zpad2 :: "nat \<Rightarrow> string" where
  "zpad2 n = [digit_char (n div 10 mod 10), digit_char (n mod 10)]"

text \<open>A number in decimal, with no padding.\<close>

fun decimal :: "nat \<Rightarrow> string" where
  "decimal n = (if n < 10 then [digit_char n] else decimal (n div 10) @ [digit_char (n mod 10)])"

text \<open>
  \<^verbatim>\<open>dt.strftime(format)\<close> for the directives the module uses: \<^verbatim>\<open>%Y\<close> is the year in
  decimal, which the C library does not pad (four digits from year 1000 on, \<^verbatim>\<open>'999'\<close> for
  year 999); \<^verbatim>\<open>%m\<close> and \<^verbatim>\<open>%d\<close> are zero-padded to two digits.
\<close>

fun strftime_toks :: "tok list \<Rightarrow> datetime \<Rightarrow> string" where
  "strftime_toks [] dt = []"
| "strftime_toks (Lit c # ts) dt = c # strftime_toks ts dt"
| "strftime_toks (Dir d # ts) dt =
     (if d = CHR ''Y'' then decimal (year dt)
      else if d = CHR ''m'' then zpad2 (month dt)
      else if d = CHR ''d'' then zpad2 (day dt)
      else [CHR ''%'', d]) @ strftime_toks ts dt"

definition strftime :: "datetime \<Rightarrow> string \<Rightarrow> string" where
  "strftime dt fmt = strftime_toks (fmt_tokens fmt) dt"

text \<open>
  \<^verbatim>\<open>a <= b\<close> on datetimes. Two naive values compare by the lexicographic order of the
  seven fields; two aware values compare as instants, that is after each offset is subtracted;
  a naive value against an aware one raises \<^verbatim>\<open>TypeError\<close>.
\<close>

fun lex_le :: "nat list \<Rightarrow> nat list \<Rightarrow> bool" where
  "lex_le [] ys = True"
| "lex_le (x # xs) [] = False"
| "lex_le (x # xs) (y # ys) = (x < y \<or> (x = y \<and> lex_le xs ys))"

definition dt_fields :: "datetime \<Rightarrow> nat list" where
  "dt_fields dt = [year dt, month dt, day dt, hour dt, minute dt, second dt, microsecond dt]"

definition days_before_year :: "nat \<Rightarrow> nat" where
  "days_before_year y = (y - 1) * 365 + (y - 1) div 4 - (y - 1) div 100 + (y - 1) div 400"

definition days_before_month :: "nat \<Rightarrow> nat \<Rightarrow> nat" where
  "days_before_month y m = sum_list (map (days_in_month y) [1..<m])"

definition toordinal :: "datetime \<Rightarrow> nat" where
  "toordinal dt = days_before_year (year dt) + days_before_month (year dt) (month dt) + day dt"

definition instant :: "datetime \<Rightarrow> int \<Rightarrow> int" where
  "instant dt off =
     ((int (toordinal dt) * 86400 + int (hour dt) * 3600 + int (minute dt) * 60 + int (second dt)
        - off) * 1000000 + int (microsecond dt))"

definition dt_le :: "datetime \<Rightarrow> datetime \<Rightarrow> error + bool" where
  "dt_le a b =
     (case (utcoffset a, utcoffset b) of
        (None, None) \<Rightarrow> Inr (lex_le (dt_fields a) (dt_fields b))
      | (Some oa, Some ob) \<Rightarrow> Inr (instant a oa \<le> instant b ob)
      | (None, Some ob) \<Rightarrow> Inl TypeError
      | (Some oa, None) \<Rightarrow> Inl TypeError)"

section \<open>\<^verbatim>\<open>DateFormatDetector\<close>\<close>

text \<open>
  \<^verbatim>\<open>dateutil.parser.parse(timestr, dayfirst=...)\<close> belongs to a third-party library, not to the
  repository. Every function that calls it takes it as the parameter \<open>parse\<close>, and the theorems
  hold for every behaviour of the library unless they name one.
\<close>

type_synonym dateutil = "string \<Rightarrow> bool \<Rightarrow> error + datetime"

text \<open>
  \<^verbatim>\<open>re.match(r'^\d{4}-\d{2}-\d{2}$', date_str)\<close>. Python's \<^verbatim>\<open>$\<close> also matches just before
  a newline that ends the string.
\<close>

definition iso_pattern :: "cclass list" where
  "iso_pattern = [Digit, Digit, Digit, Digit, Exactly CHR ''-'', Digit, Digit,
                  Exactly CHR ''-'', Digit, Digit]"

definition iso_match :: "string \<Rightarrow> bool" where
  "iso_match date_str =
     (case match_alt iso_pattern date_str of
        None \<Rightarrow> False
      | Some (m, rest) \<Rightarrow> rest = [] \<or> rest = [CHR 0x0A])"

text \<open>
  The loop \<^verbatim>\<open>for fmt in [...]: try: return datetime.strptime(date_str, fmt)
  except ValueError: continue\<close>; \<open>None\<close> when the loop ends without a result.
\<close>

fun try_formats :: "string \<Rightarrow> string list \<Rightarrow> datetime option" where
  "try_formats date_str [] = None"
| "try_formats date_str (fmt # fmts) =
     (case strptime date_str fmt of
        Inr dt \<Rightarrow> Some dt
      | Inl e \<Rightarrow> try_formats date_str fmts)"

definition parse_date :: "dateutil \<Rightarrow> string \<Rightarrow> page_format option \<Rightarrow> error + datetime" where
  "parse_date parse date_str format_hint =
     (if iso_match date_str then strptime date_str ''%Y-%m-%d''
      else (case try_formats date_str [''%Y-%m-%d'', ''%d/%m/%Y'', ''%m/%d/%Y'', ''%Y/%m/%d''] of
        Some dt \<Rightarrow> Inr dt
      | None \<Rightarrow>
          (case format_hint of
             Some h \<Rightarrow> parse date_str (h = DMY)
           | None \<Rightarrow>
               (let parts = re_split date_str in
                if length parts = 3 then
                  (case py_int (parts ! 0) of
                     Inl e \<Rightarrow> Inl e
                   | Inr first \<Rightarrow> parse date_str (first > 12))
                else parse date_str False))))"

text \<open>
  \<^verbatim>\<open>to_page_format\<close>: the bare \<^verbatim>\<open>except\<close> around the parse returns the input unchanged
  when the fallback raises.
\<close>

definition to_page_format :: "dateutil \<Rightarrow> string \<Rightarrow> page_format \<Rightarrow> string" where
  "to_page_format parse date_str format =
     (case (case try_formats date_str
                   [''%d/%m/%Y'', ''%m/%d/%Y'', ''%Y-%m-%d'', ''%d-%m-%Y'', ''%m-%d-%Y''] of
              Some dt \<Rightarrow> Inr dt
            | None \<Rightarrow> parse date_str (format = DMY)) of
        Inl e \<Rightarrow> date_str
      | Inr dt \<Rightarrow>
          if format = MDY then strftime dt ''%m/%d/%Y'' else strftime dt ''%d/%m/%Y'')"

definition format_for_api :: "dateutil \<Rightarrow> string \<Rightarrow> error + string" where
  "format_for_api parse date_str =
     (case parse_date parse date_str None of
        Inl e \<Rightarrow> Inl e
      | Inr dt \<Rightarrow> Inr (strftime dt ''%Y-%m-%d''))"

definition format_for_display :: "datetime \<Rightarrow> string \<Rightarrow> string" where
  "format_for_display dt format = strftime dt format"

text \<open>
  The analysis loop of \<^verbatim>\<open>detect_page_date_format\<close> over \<^verbatim>\<open>dates_found\<close>, the substrings
  that the page scraping collected with \<^verbatim>\<open>re.findall\<close>. The scraping itself is browser
  automation and is not modelled.
\<close>

fun detect_page_date_format :: "string list \<Rightarrow> error + page_format" where
  "detect_page_date_format [] = Inr MDY"
| "detect_page_date_format (date_str # dates_found) =
     (let parts = re_split date_str in
      if length parts = 3 then
        (case py_int (parts ! 0) of Inl e \<Rightarrow> Inl e | Inr first \<Rightarrow>
        (case py_int (parts ! 1) of Inl e \<Rightarrow> Inl e | Inr second' \<Rightarrow>
        (case py_int (parts ! 2) of Inl e \<Rightarrow> Inl e | Inr third \<Rightarrow>
           if first > 12 then Inr DMY
           else if second' > 12 then Inr MDY
           else detect_page_date_format dates_found)))
      else detect_page_date_format dates_found)"

section \<open>\<^verbatim>\<open>DateRangeHelper\<close>\<close>

definition parse_range :: "dateutil \<Rightarrow> string \<Rightarrow> string \<Rightarrow> error + (datetime \<times> datetime)" where
  "parse_range parse start_str end_str =
     (case parse_date parse start_str None of
        Inl e \<Rightarrow> Inl e
      | Inr start \<Rightarrow>
          (case parse_date parse end_str None of
             Inl e \<Rightarrow> Inl e
           | Inr end' \<Rightarrow> Inr (start, end')))"

text \<open>
  The chained comparison \<^verbatim>\<open>start <= date <= end\<close> evaluates \<^verbatim>\<open>date <= end\<close> only when
  \<^verbatim>\<open>start <= date\<close> is true.
\<close>

definition is_date_in_range :: "dateutil \<Rightarrow> string \<Rightarrow> string \<Rightarrow> string \<Rightarrow> error + bool" where
  "is_date_in_range parse date_str start_str end_str =
     (case parse_date parse date_str None of
        Inl e \<Rightarrow> Inl e
      | Inr date \<Rightarrow>
          (case parse_range parse start_str end_str of
             Inl e \<Rightarrow> Inl e
           | Inr (start, end') \<Rightarrow>
               (case dt_le start date of
                  Inl e \<Rightarrow> Inl e
                | Inr below \<Rightarrow> if below then dt_le date end' else Inr False)))"

definition format_range_for_api :: "dateutil \<Rightarrow> string \<Rightarrow> string \<Rightarrow> error + (string \<times> string)" where
  "format_range_for_api parse start_str end_str =
     (case format_for_api parse start_str of
        Inl e \<Rightarrow> Inl e
      | Inr a \<Rightarrow>
          (case format_for_api parse end_str of
             Inl e \<Rightarrow> Inl e
           | Inr b \<Rightarrow> Inr (a, b)))"

section \<open>Notions used in the statements\<close>

text \<open>
  Texts made of decimal digits: of any length, and of one or two characters (a day or month
  field as \<^verbatim>\<open>\d{1,2}\<close> reads it). \<open>fullmatch d f\<close> says that the pattern of the
  directive \<open>d\<close> matches the whole of \<open>f\<close>.
\<close>

definition all_digits :: "string \<Rightarrow> bool" where
  "all_digits s = list_all is_digit s"

definition short_digits :: "string \<Rightarrow> bool" where
  "short_digits f = ((length f = 1 \<or> length f = 2) \<and> all_digits f)"

definition fullmatch :: "char \<Rightarrow> string \<Rightarrow> bool" where
  "fullmatch d f = list_ex (\<lambda>a. list_all2 in_class a f) (directive_alts d)"

text \<open>
  \<^verbatim>\<open>MDY_PATTERNS\<close>: \<^verbatim>\<open>\d{1,2}/\d{1,2}/\d{4}\<close> and the same with \<^verbatim>\<open>-\<close> and with
  \<^verbatim>\<open>.\<close>, each counted repetition written out. \<open>found_by_patterns s\<close> says that one of
  the patterns matches the whole of \<open>s\<close>: these are the strings \<^verbatim>\<open>re.findall\<close> can put in
  \<^verbatim>\<open>dates_found\<close>.
\<close>

definition date_shape :: "char \<Rightarrow> nat \<Rightarrow> nat \<Rightarrow> cclass list" where
  "date_shape sep n1 n2 =
     replicate n1 Digit @ [Exactly sep] @ replicate n2 Digit @ [Exactly sep] @ replicate 4 Digit"

definition MDY_PATTERNS :: "cclass list list" where
  "MDY_PATTERNS =
     concat (map (\<lambda>sep. [date_shape sep 2 2, date_shape sep 2 1, date_shape sep 1 2, date_shape sep 1 1])
       ''/-.'')"

definition found_by_patterns :: "string \<Rightarrow> bool" where
  "found_by_patterns s = list_ex (\<lambda>a. match_alt a s = Some (s, [])) MDY_PATTERNS"

text \<open>The number in the \<open>i\<close>-th field of a date string, and a sample that decides the format.\<close>

definition field_val :: "nat \<Rightarrow> string \<Rightarrow> nat" where
  "field_val i s = digits_val (re_split s ! i)"

definition decisive :: "string \<Rightarrow> bool" where
  "decisive s = (12 < field_val 0 s \<or> 12 < field_val 1 s)"

text \<open>The year in four digits, zero-padded.\<close>

definition zpad4 :: "nat \<Rightarrow> string" where
  "zpad4 n = [digit_char (n div 1000 mod 10), digit_char (n div 100 mod 10),
              digit_char (n div 10 mod 10), digit_char (n mod 10)]"


definition at_midnight :: "datetime \<Rightarrow> bool" where
  "at_midnight dt =
     (hour dt = 0 \<and> minute dt = 0 \<and> second dt = 0 \<and> microsecond dt = 0 \<and> utcoffset dt = None)"

definition naive :: "datetime \<Rightarrow> bool" where
  "naive dt = (utcoffset dt = None)"


definition date_part :: "datetime \<Rightarrow> datetime" where
  "date_part dt = date_of (year dt) (month dt) (day dt)"

definition resolved_explicitly :: "string \<Rightarrow> bool" where
  "resolved_explicitly s =
     (iso_match s \<or> try_formats s [''%Y-%m-%d'', ''%d/%m/%Y'', ''%m/%d/%Y'', ''%Y/%m/%d''] \<noteq> None)"

text \<open>
  Values of \<^verbatim>\<open>dateutil.parser.parse\<close>, for the concrete instances below:
  \<^item> \<^verbatim>\<open>parse('01/03/99', dayfirst=False)\<close> is \<^verbatim>\<open>datetime(1999, 1, 3)\<close> and
    \<^verbatim>\<open>parse('01/03/99', dayfirst=True)\<close> is \<^verbatim>\<open>datetime(1999, 3, 1)\<close>: the library
    completes a two-digit year;
  \<^item> \<^verbatim>\<open>parse('2025-01-01 10:00', dayfirst=True)\<close> is \<^verbatim>\<open>datetime(2025, 1, 1, 10, 0)\<close>;
  \<^item> \<^verbatim>\<open>parse('2025-01-01T10:00:00Z', dayfirst=True)\<close> is
    \<^verbatim>\<open>datetime(2025, 1, 1, 10, 0, tzinfo=tzutc())\<close>;
  \<^item> \<^verbatim>\<open>parse('not-a-date')\<close> raises \<^verbatim>\<open>ParserError\<close>.

  The function stands for the library at these inputs only: no theorem evaluates it at another
  string, and no general theorem depends on it.
\<close>

definition dateutil_sample :: dateutil where
  "dateutil_sample timestr dayfirst =
     (if timestr = ''01/03/99'' then Inr (if dayfirst then date_of 1999 3 1 else date_of 1999 1 3)
      else if timestr = ''2025-01-01 10:00'' then Inr ((date_of 2025 1 1)\<lparr>hour := 10\<rparr>)
      else if timestr = ''2025-01-01T10:00:00Z''
        then Inr ((date_of 2025 1 1)\<lparr>hour := 10, utcoffset := Some 0\<rparr>)
      else Inl (ParserError timestr))"

section \<open>Auxiliary facts\<close>

lemma digit_char_of: "n < 10 \<Longrightarrow> (of_char (digit_char n) :: nat) = 48 + n"
  by (simp add: digit_char_def)

lemma is_digit_digit_char: "n < 10 \<Longrightarrow> is_digit (digit_char n)"
  by (simp add: is_digit_def digit_char_of)

lemma digit_val_digit_char: "n < 10 \<Longrightarrow> digit_val (digit_char n) = n"
  by (simp add: digit_val_def digit_char_of)

lemma digit_val_less: "is_digit c \<Longrightarrow> digit_val c < 10"
  by (auto simp: is_digit_def digit_val_def)

lemma digit_char_digit_val: "is_digit c \<Longrightarrow> digit_char (digit_val c) = c"
  by (simp add: is_digit_def digit_val_def digit_char_def)

lemma of_char_lits:
  "(of_char CHR ''0'' :: nat) = 48" "(of_char CHR ''1'' :: nat) = 49"
  "(of_char CHR ''2'' :: nat) = 50" "(of_char CHR ''3'' :: nat) = 51"
  "(of_char CHR ''9'' :: nat) = 57" "(of_char CHR ''/'' :: nat) = 47"
  "(of_char CHR ''-'' :: nat) = 45" "(of_char CHR ''.'' :: nat) = 46"
  "(of_char CHR '' '' :: nat) = 32" "(of_char CHR ''+'' :: nat) = 43"
  "(of_char CHR ''_'' :: nat) = 95"
  by simp_all

lemma char_lit_iff:
  "(c = CHR ''0'') = (of_char c = (48::nat))"
  "(c = CHR ''1'') = (of_char c = (49::nat))"
  "(c = CHR ''3'') = (of_char c = (51::nat))"
  "(c = CHR ''/'') = (of_char c = (47::nat))"
  "(c = CHR ''-'') = (of_char c = (45::nat))"
  "(c = CHR ''.'') = (of_char c = (46::nat))"
  "(c = CHR '' '') = (of_char c = (32::nat))"
  "(c = CHR ''+'') = (of_char c = (43::nat))"
  "(c = CHR ''_'') = (of_char c = (95::nat))"
  by (metis of_char_eq_iff of_char_lits)+

lemma match_alt_closed:
  "match_alt a s =
     (if length a \<le> length s \<and> list_all2 in_class a (take (length a) s)
      then Some (take (length a) s, drop (length a) s) else None)"
proof (induction a s rule: match_alt.induct)
  case (1 s) show ?case by simp
next
  case (2 k ks) show ?case by simp
next
  case (3 k ks c cs)
  then show ?case by (auto split: option.splits)
qed


lemma match_alts_sep:
  assumes "\<forall>a\<in>set alts. \<forall>k\<in>set a. \<not> in_class k sep" and "sep \<notin> set f"
  shows "match_alts d alts (Lit sep # ts) (f @ sep # r) =
           (if \<exists>a\<in>set alts. list_all2 in_class a f
            then (case match_toks ts r of None \<Rightarrow> None | Some (g, r') \<Rightarrow> Some ((d, f) # g, r'))
            else None)"
  using assms(1)
proof (induction alts)
  case Nil
  show ?case by simp
next
  case (Cons a alts)
  have nosep: "\<forall>k\<in>set a. \<not> in_class k sep" using Cons.prems by simp
  have IH: "match_alts d alts (Lit sep # ts) (f @ sep # r) =
           (if \<exists>a\<in>set alts. list_all2 in_class a f
            then (case match_toks ts r of None \<Rightarrow> None | Some (g, r') \<Rightarrow> Some ((d, f) # g, r'))
            else None)"
    using Cons by simp
  consider (lt) "length a < length f" | (eq) "length a = length f" | (gt) "length a > length f"
    by linarith
  then show ?case
  proof cases
    case lt
    then have hd: "drop (length a) (f @ sep # r) = f ! length a # drop (Suc (length a)) f @ sep # r"
      by (simp add: Cons_nth_drop_Suc)
    have ne: "f ! length a \<noteq> sep" using lt assms(2) by (metis nth_mem)
    have nf: "\<not> list_all2 in_class a f" using lt by (auto dest: list_all2_lengthD)
    show ?thesis using lt hd ne nf IH
      by (simp add: match_alt_closed)
  next
    case eq
    show ?thesis using eq IH
      by (auto simp: match_alt_closed split: option.splits)
  next
    case gt
    then have "length f < length a" by simp
    have "\<not> list_all2 in_class a (take (length a) (f @ sep # r))"
    proof
      assume h: "list_all2 in_class a (take (length a) (f @ sep # r))"
      have len: "length f < length (take (length a) (f @ sep # r))"
        using gt list_all2_lengthD[OF h] by simp
      have "in_class (a ! length f) (take (length a) (f @ sep # r) ! length f)"
        using h gt by (simp add: list_all2_conv_all_nth)
      moreover have "take (length a) (f @ sep # r) ! length f = sep"
        using gt by (simp add: nth_append)
      moreover have "a ! length f \<in> set a" using gt by simp
      ultimately show False using nosep by auto
    qed
    moreover have nf: "\<not> list_all2 in_class a f" using gt by (auto dest: list_all2_lengthD)
    ultimately show ?thesis using IH by (simp add: match_alt_closed)
  qed
qed

lemma len1: "length f = Suc 0 \<Longrightarrow> \<exists>c. f = [c]"
  by (cases f) auto

lemma len2: "length f = 2 \<Longrightarrow> \<exists>c1 c2. f = [c1, c2]"
  by (cases f; cases "tl f") auto

lemma len4: "length f = 4 \<Longrightarrow> \<exists>c1 c2 c3 c4. f = [c1, c2, c3, c4]"
  by (cases f; cases "tl f"; cases "tl (tl f)"; cases "tl (tl (tl f))") auto

lemma digits_val_1: "digits_val [c] = digit_val c"
  by (simp add: digits_val_def)

lemma digits_val_2: "digits_val [c1, c2] = 10 * digit_val c1 + digit_val c2"
  by (simp add: digits_val_def)

lemma digits_val_4:
  "digits_val [c1, c2, c3, c4] = 1000 * digit_val c1 + 100 * digit_val c2 + 10 * digit_val c3 + digit_val c4"
  by (simp add: digits_val_def)

lemma fullmatch_d_1:
  "is_digit c \<Longrightarrow> fullmatch CHR ''d'' [c] = (1 \<le> digits_val [c] \<and> digits_val [c] \<le> 31)"
  by (auto simp: fullmatch_def directive_alts_def digits_val_1 digit_val_def is_digit_def)

lemma fullmatch_d_2:
  "is_digit c1 \<Longrightarrow> is_digit c2 \<Longrightarrow>
   fullmatch CHR ''d'' [c1, c2] = (1 \<le> digits_val [c1, c2] \<and> digits_val [c1, c2] \<le> 31)"
  by (simp add: fullmatch_def directive_alts_def digits_val_2 digit_val_def is_digit_def char_lit_iff) arith

lemma fullmatch_m_1:
  "is_digit c \<Longrightarrow> fullmatch CHR ''m'' [c] = (1 \<le> digits_val [c] \<and> digits_val [c] \<le> 12)"
  by (auto simp: fullmatch_def directive_alts_def digits_val_1 digit_val_def is_digit_def)

lemma fullmatch_m_2:
  "is_digit c1 \<Longrightarrow> is_digit c2 \<Longrightarrow>
   fullmatch CHR ''m'' [c1, c2] = (1 \<le> digits_val [c1, c2] \<and> digits_val [c1, c2] \<le> 12)"
  by (simp add: fullmatch_def directive_alts_def digits_val_2 digit_val_def is_digit_def char_lit_iff) arith

lemma fullmatch_Y: "fullmatch CHR ''Y'' f = (length f = 4 \<and> all_digits f)"
proof (cases "length f = 4")
  case True
  then obtain c1 c2 c3 c4 where "f = [c1, c2, c3, c4]" using len4 by blast
  then show ?thesis by (simp add: fullmatch_def directive_alts_def all_digits_def)
next
  case False
  then show ?thesis
    by (auto simp: fullmatch_def directive_alts_def dest: list_all2_lengthD)
qed

lemma short_digits_cases:
  assumes "short_digits f"
  obtains c where "f = [c]" "is_digit c" | c1 c2 where "f = [c1, c2]" "is_digit c1" "is_digit c2"
proof -
  from assms consider "length f = Suc 0" | "length f = 2" by (auto simp: short_digits_def)
  then show ?thesis
  proof cases
    case 1
    then obtain c where "f = [c]" using len1 by blast
    with assms that(1) show ?thesis by (simp add: short_digits_def all_digits_def)
  next
    case 2
    then obtain c1 c2 where "f = [c1, c2]" using len2 by blast
    with assms that(2) show ?thesis by (simp add: short_digits_def all_digits_def)
  qed
qed

lemma fullmatch_d: "short_digits f \<Longrightarrow> fullmatch CHR ''d'' f = (1 \<le> digits_val f \<and> digits_val f \<le> 31)"
  by (erule short_digits_cases) (simp_all only: fullmatch_d_1 fullmatch_d_2)

lemma fullmatch_m: "short_digits f \<Longrightarrow> fullmatch CHR ''m'' f = (1 \<le> digits_val f \<and> digits_val f \<le> 12)"
  by (erule short_digits_cases) (simp_all only: fullmatch_m_1 fullmatch_m_2)

lemma is_digit_not_special:
  "is_digit c \<Longrightarrow> c \<noteq> CHR ''/'' \<and> c \<noteq> CHR ''-'' \<and> c \<noteq> CHR ''.'' \<and> c \<noteq> CHR '' ''
     \<and> c \<noteq> CHR ''+'' \<and> c \<noteq> CHR ''_'' \<and> \<not> is_space c \<and> \<not> is_sep c"
  by (auto simp: is_digit_def is_space_def is_sep_def Let_def)

lemma all_digits_no_special:
  "all_digits f \<Longrightarrow> CHR ''/'' \<notin> set f \<and> CHR ''-'' \<notin> set f \<and> CHR ''.'' \<notin> set f"
  using is_digit_not_special by (auto simp: all_digits_def list_all_iff)

lemma directive_no_slash: "\<forall>a\<in>set (directive_alts d). \<forall>k\<in>set a. \<not> in_class k CHR ''/''"
  by (simp add: directive_alts_def is_digit_def)

lemma directive_no_hyphen: "\<forall>a\<in>set (directive_alts d). \<forall>k\<in>set a. \<not> in_class k CHR ''-''"
  by (simp add: directive_alts_def is_digit_def)

lemma match_dir_sep:
  assumes "sep = CHR ''/'' \<or> sep = CHR ''-''" and "sep \<notin> set f"
  shows "match_toks (Dir d # Lit sep # ts) (f @ sep # r) =
           (if fullmatch d f
            then (case match_toks ts r of None \<Rightarrow> None | Some (g, r') \<Rightarrow> Some ((d, f) # g, r'))
            else None)"
proof -
  have "\<forall>a\<in>set (directive_alts d). \<forall>k\<in>set a. \<not> in_class k sep"
    using assms(1) directive_no_slash directive_no_hyphen by blast
  from match_alts_sep[OF this assms(2)] show ?thesis
    by (simp add: fullmatch_def list_ex_iff)
qed

lemma match_last_Y:
  "match_toks [Dir CHR ''Y''] s =
     (if 4 \<le> length s \<and> all_digits (take 4 s) then Some ([(CHR ''Y'', take 4 s)], drop 4 s) else None)"
proof (cases "4 \<le> length s")
  case True
  then have "length (take 4 s) = 4" by simp
  then obtain c1 c2 c3 c4 where t: "take 4 s = [c1, c2, c3, c4]" using len4 by blast
  have "s = take 4 s @ drop 4 s" by simp
  then obtain r where s: "s = c1 # c2 # c3 # c4 # r" using t by (metis append_Cons append_Nil)
  show ?thesis unfolding s
    by (simp add: directive_alts_def all_digits_def)
next
  case False
  have "length [Digit, Digit, Digit, Digit] = 4" by simp
  then show ?thesis using False
    by (simp add: directive_alts_def match_alt_closed del: length_Cons list.size)
qed

lemma match_last_d_ok:
  assumes "short_digits f" "1 \<le> digits_val f" "digits_val f \<le> 31"
  shows "match_toks [Dir CHR ''d''] f = Some ([(CHR ''d'', f)], [])"
  using assms(1)
proof (cases rule: short_digits_cases)
  case (1 c)
  then show ?thesis using assms(2,3)
    by (auto simp: directive_alts_def digits_val_1 digit_val_def is_digit_def char_lit_iff)
next
  case (2 c1 c2)
  then show ?thesis using assms(2,3)
    by (auto simp: directive_alts_def digits_val_2 digit_val_def is_digit_def char_lit_iff)
qed

lemma match_last_d_bad:
  assumes "short_digits f" "\<not> (1 \<le> digits_val f \<and> digits_val f \<le> 31)"
  shows "match_toks [Dir CHR ''d''] f = None \<or> (\<exists>g r. match_toks [Dir CHR ''d''] f = Some (g, r) \<and> r \<noteq> [])"
  using assms(1)
proof (cases rule: short_digits_cases)
  case (1 c)
  then show ?thesis using assms(2)
    by (auto simp: directive_alts_def digits_val_1 digit_val_def is_digit_def char_lit_iff)
next
  case (2 c1 c2)
  then show ?thesis using assms(2)
    by (auto simp: directive_alts_def digits_val_2 digit_val_def is_digit_def char_lit_iff)
qed

lemma literal_digits_all:
  "all_digits f \<Longrightarrow> literal_digits b f = (if f = [] \<and> \<not> b then None else Some f)"
  by (induction f arbitrary: b) (auto simp: all_digits_def)

lemma strip_digits: "all_digits f \<Longrightarrow> strip f = f"
proof -
  assume a: "all_digits f"
  have 1: "\<And>g. all_digits g \<Longrightarrow> dropWhile is_space g = g"
    subgoal for g by (cases g) (auto simp: all_digits_def is_digit_not_special)
    done
  have "all_digits (rev f)" using a by (simp add: all_digits_def)
  then show ?thesis using a 1 by (simp add: strip_def)
qed

lemma py_int_digits:
  assumes "all_digits f" "f \<noteq> []" "length f \<le> 4300"
  shows "py_int f = Inr (int (digits_val f))"
proof -
  obtain c cs where f: "f = c # cs" using assms(2) by (cases f) auto
  then have "is_digit c" using assms(1) by (simp add: all_digits_def)
  then have "c \<noteq> CHR ''-''" "c \<noteq> CHR ''+''" using is_digit_not_special by auto
  moreover have "literal_digits False f = Some f"
    using assms(1,2) by (simp add: literal_digits_all)
  ultimately show ?thesis
    using assms f by (simp add: py_int_def strip_digits Let_def)
qed

lemma short_digits_props:
  "short_digits f \<Longrightarrow> all_digits f \<and> f \<noteq> [] \<and> length f \<le> 4300 \<and> length f \<le> 2
     \<and> CHR ''/'' \<notin> set f \<and> CHR ''-'' \<notin> set f"
  using all_digits_no_special by (auto simp: short_digits_def)

lemma valid_date_bounds:
  "valid_date y m d \<Longrightarrow> 1 \<le> y \<and> y \<le> 9999 \<and> 1 \<le> m \<and> m \<le> 12 \<and> 1 \<le> d \<and> d \<le> 31"
  by (auto simp: valid_date_def days_in_month_def split: if_splits)

lemma py_int_short: "short_digits f \<Longrightarrow> py_int f = Inr (int (digits_val f))"
  using short_digits_props[of f] by (simp add: py_int_digits)

lemma py_int_four: "length f = 4 \<Longrightarrow> all_digits f \<Longrightarrow> py_int f = Inr (int (digits_val f))"
  by (rule py_int_digits) auto

lemma fmt_tokens_used:
  "fmt_tokens ''%Y-%m-%d'' = [Dir CHR ''Y'', Lit CHR ''-'', Dir CHR ''m'', Lit CHR ''-'', Dir CHR ''d'']"
  "fmt_tokens ''%d/%m/%Y'' = [Dir CHR ''d'', Lit CHR ''/'', Dir CHR ''m'', Lit CHR ''/'', Dir CHR ''Y'']"
  "fmt_tokens ''%m/%d/%Y'' = [Dir CHR ''m'', Lit CHR ''/'', Dir CHR ''d'', Lit CHR ''/'', Dir CHR ''Y'']"
  "fmt_tokens ''%Y/%m/%d'' = [Dir CHR ''Y'', Lit CHR ''/'', Dir CHR ''m'', Lit CHR ''/'', Dir CHR ''d'']"
  by simp_all

lemma match_slash_Y:
  assumes "CHR ''/'' \<notin> set fa" "CHR ''/'' \<notin> set fb"
  shows "match_toks [Dir x, Lit CHR ''/'', Dir y, Lit CHR ''/'', Dir CHR ''Y''] (fa @ CHR ''/'' # fb @ CHR ''/'' # yt) =
           (if fullmatch x fa \<and> fullmatch y fb \<and> 4 \<le> length yt \<and> all_digits (take 4 yt)
            then Some ([(x, fa), (y, fb), (CHR ''Y'', take 4 yt)], drop 4 yt) else None)"
  by (simp only: match_dir_sep[OF disjI1[OF refl] assms(1)] match_dir_sep[OF disjI1[OF refl] assms(2)]
        match_last_Y) simp

lemma strptime_dmY_ok:
  assumes "short_digits fa" "short_digits fb" "length yt = 4" "all_digits yt"
    and "valid_date (digits_val yt) (digits_val fb) (digits_val fa)"
  shows "strptime (fa @ ''/'' @ fb @ ''/'' @ yt) ''%d/%m/%Y'' =
           Inr (date_of (digits_val yt) (digits_val fb) (digits_val fa))"
proof -
  note b = valid_date_bounds[OF assms(5)]
  note pa = short_digits_props[OF assms(1)] and pb = short_digits_props[OF assms(2)]
  have m: "match_toks (fmt_tokens ''%d/%m/%Y'') (fa @ ''/'' @ fb @ ''/'' @ yt) =
             Some ([(CHR ''d'', fa), (CHR ''m'', fb), (CHR ''Y'', yt)], [])"
    using assms b pa pb
    by (simp add: match_slash_Y fullmatch_d fullmatch_m del: match_toks.simps)
  have i: "py_int fa = Inr (int (digits_val fa))" "py_int fb = Inr (int (digits_val fb))"
    "py_int yt = Inr (int (digits_val yt))"
    using assms(1-4) by (simp_all add: py_int_short py_int_four)
  show ?thesis
    unfolding strptime_def m using i assms(5) by (simp add: group_int_def)
qed

lemma strptime_dmY_bad:
  assumes "short_digits fa" "short_digits fb"
    and "\<not> (length yt = 4 \<and> all_digits yt \<and> valid_date (digits_val yt) (digits_val fb) (digits_val fa))"
  shows "\<exists>e. strptime (fa @ ''/'' @ fb @ ''/'' @ yt) ''%d/%m/%Y'' = Inl e"
proof -
  note pa = short_digits_props[OF assms(1)] and pb = short_digits_props[OF assms(2)]
  let ?s = "fa @ ''/'' @ fb @ ''/'' @ yt"
  have m: "match_toks (fmt_tokens ''%d/%m/%Y'') ?s =
           (if fullmatch CHR ''d'' fa \<and> fullmatch CHR ''m'' fb \<and> 4 \<le> length yt \<and> all_digits (take 4 yt)
            then Some ([(CHR ''d'', fa), (CHR ''m'', fb), (CHR ''Y'', take 4 yt)], drop 4 yt) else None)"
    using pa pb by (simp add: match_slash_Y del: match_toks.simps)
  show ?thesis
  proof (cases "fullmatch CHR ''d'' fa \<and> fullmatch CHR ''m'' fb \<and> 4 \<le> length yt \<and> all_digits (take 4 yt)")
    case False
    show ?thesis unfolding strptime_def m if_not_P[OF False] by simp
  next
    case True
    show ?thesis
    proof (cases "length yt = 4")
      case False
      then have "drop 4 yt \<noteq> []" using True by simp
      then show ?thesis unfolding strptime_def m if_P[OF True] by simp
    next
      case len: True
      then have yt: "take 4 yt = yt" "drop 4 yt = []" "all_digits yt" using True by auto
      have i: "py_int fa = Inr (int (digits_val fa))" "py_int fb = Inr (int (digits_val fb))"
        "py_int yt = Inr (int (digits_val yt))"
        using assms(1,2) len yt by (simp_all add: py_int_short py_int_four)
      have "\<not> valid_date (digits_val yt) (digits_val fb) (digits_val fa)"
        using assms(3) len yt by simp
      then show ?thesis unfolding strptime_def m if_P[OF True] using yt i by (simp add: group_int_def)
    qed
  qed
qed

lemma strptime_mdY_ok:
  assumes "short_digits fa" "short_digits fb" "length yt = 4" "all_digits yt"
    and "valid_date (digits_val yt) (digits_val fa) (digits_val fb)"
  shows "strptime (fa @ ''/'' @ fb @ ''/'' @ yt) ''%m/%d/%Y'' =
           Inr (date_of (digits_val yt) (digits_val fa) (digits_val fb))"
proof -
  note b = valid_date_bounds[OF assms(5)]
  note pa = short_digits_props[OF assms(1)] and pb = short_digits_props[OF assms(2)]
  have m: "match_toks (fmt_tokens ''%m/%d/%Y'') (fa @ ''/'' @ fb @ ''/'' @ yt) =
             Some ([(CHR ''m'', fa), (CHR ''d'', fb), (CHR ''Y'', yt)], [])"
    using assms b pa pb
    by (simp add: match_slash_Y fullmatch_d fullmatch_m del: match_toks.simps)
  have i: "py_int fa = Inr (int (digits_val fa))" "py_int fb = Inr (int (digits_val fb))"
    "py_int yt = Inr (int (digits_val yt))"
    using assms(1-4) by (simp_all add: py_int_short py_int_four)
  show ?thesis
    unfolding strptime_def m using i assms(5) by (simp add: group_int_def)
qed

lemma strptime_mdY_bad:
  assumes "short_digits fa" "short_digits fb"
    and "\<not> (length yt = 4 \<and> all_digits yt \<and> valid_date (digits_val yt) (digits_val fa) (digits_val fb))"
  shows "\<exists>e. strptime (fa @ ''/'' @ fb @ ''/'' @ yt) ''%m/%d/%Y'' = Inl e"
proof -
  note pa = short_digits_props[OF assms(1)] and pb = short_digits_props[OF assms(2)]
  let ?s = "fa @ ''/'' @ fb @ ''/'' @ yt"
  have m: "match_toks (fmt_tokens ''%m/%d/%Y'') ?s =
           (if fullmatch CHR ''m'' fa \<and> fullmatch CHR ''d'' fb \<and> 4 \<le> length yt \<and> all_digits (take 4 yt)
            then Some ([(CHR ''m'', fa), (CHR ''d'', fb), (CHR ''Y'', take 4 yt)], drop 4 yt) else None)"
    using pa pb by (simp add: match_slash_Y del: match_toks.simps)
  show ?thesis
  proof (cases "fullmatch CHR ''m'' fa \<and> fullmatch CHR ''d'' fb \<and> 4 \<le> length yt \<and> all_digits (take 4 yt)")
    case False
    show ?thesis unfolding strptime_def m if_not_P[OF False] by simp
  next
    case True
    show ?thesis
    proof (cases "length yt = 4")
      case False
      then have "drop 4 yt \<noteq> []" using True by simp
      then show ?thesis unfolding strptime_def m if_P[OF True] by simp
    next
      case len: True
      then have yt: "take 4 yt = yt" "drop 4 yt = []" "all_digits yt" using True by auto
      have i: "py_int fa = Inr (int (digits_val fa))" "py_int fb = Inr (int (digits_val fb))"
        "py_int yt = Inr (int (digits_val yt))"
        using assms(1,2) len yt by (simp_all add: py_int_short py_int_four)
      have "\<not> valid_date (digits_val yt) (digits_val fa) (digits_val fb)"
        using assms(3) len yt by simp
      then show ?thesis unfolding strptime_def m if_P[OF True] using yt i by (simp add: group_int_def)
    qed
  qed
qed

lemma match_Y_first_short:
  assumes "short_digits fa"
  shows "match_toks (Dir CHR ''Y'' # ts) (fa @ CHR ''/'' # r) = None"
  using assms(1)
proof (cases rule: short_digits_cases)
  case (1 c)
  then show ?thesis by (simp add: directive_alts_def is_digit_def split: option.splits)
next
  case (2 c1 c2)
  then show ?thesis by (simp add: directive_alts_def is_digit_def split: option.splits)
qed

lemma strptime_Y_first_slash:
  assumes "short_digits fa"
  shows "strptime (fa @ ''/'' @ r) ''%Y-%m-%d'' = Inl (NoMatch (fa @ ''/'' @ r) ''%Y-%m-%d'')"
    and "strptime (fa @ ''/'' @ r) ''%Y/%m/%d'' = Inl (NoMatch (fa @ ''/'' @ r) ''%Y/%m/%d'')"
  using match_Y_first_short[OF assms]
  by (simp_all add: strptime_def del: match_toks.simps)

lemma iso_match_slash:
  assumes "short_digits fa"
  shows "\<not> iso_match (fa @ ''/'' @ r)"
  using assms
proof (cases rule: short_digits_cases)
  case (1 c)
  then show ?thesis by (simp add: iso_match_def iso_pattern_def is_digit_def)
next
  case (2 c1 c2)
  then show ?thesis by (simp add: iso_match_def iso_pattern_def is_digit_def)
qed

lemma parse_date_slash:
  assumes "short_digits fa"
  shows "parse_date P (fa @ ''/'' @ r) h =
     (case strptime (fa @ ''/'' @ r) ''%d/%m/%Y'' of
        Inr dt \<Rightarrow> Inr dt
      | Inl e \<Rightarrow>
         (case strptime (fa @ ''/'' @ r) ''%m/%d/%Y'' of
            Inr dt \<Rightarrow> Inr dt
          | Inl e \<Rightarrow>
             (case h of
                Some f \<Rightarrow> P (fa @ ''/'' @ r) (f = DMY)
              | None \<Rightarrow>
                 (let parts = re_split (fa @ ''/'' @ r) in
                  if length parts = 3 then
                    (case py_int (parts ! 0) of
                       Inl e \<Rightarrow> Inl e
                     | Inr first \<Rightarrow> P (fa @ ''/'' @ r) (first > 12))
                  else P (fa @ ''/'' @ r) False))))"
  unfolding parse_date_def
  using iso_match_slash[OF assms, of r] strptime_Y_first_slash[OF assms, of r]
  by (simp split: sum.splits)

lemma match_hyphen_d:
  assumes "CHR ''-'' \<notin> set fy" "CHR ''-'' \<notin> set fm"
  shows "match_toks [Dir CHR ''Y'', Lit CHR ''-'', Dir CHR ''m'', Lit CHR ''-'', Dir CHR ''d'']
           (fy @ CHR ''-'' # fm @ CHR ''-'' # fd) =
           (if fullmatch CHR ''Y'' fy \<and> fullmatch CHR ''m'' fm
            then (case match_toks [Dir CHR ''d''] fd of
                    None \<Rightarrow> None
                  | Some (g, r') \<Rightarrow> Some ((CHR ''Y'', fy) # (CHR ''m'', fm) # g, r'))
            else None)"
  by (simp only: match_dir_sep[OF disjI2[OF refl] assms(1)] match_dir_sep[OF disjI2[OF refl] assms(2)])
     (simp split: option.splits)

lemma strptime_iso_ok:
  assumes "length fy = 4" "all_digits fy" "short_digits fm" "short_digits fd"
    and "valid_date (digits_val fy) (digits_val fm) (digits_val fd)"
  shows "strptime (fy @ ''-'' @ fm @ ''-'' @ fd) ''%Y-%m-%d'' =
           Inr (date_of (digits_val fy) (digits_val fm) (digits_val fd))"
proof -
  note b = valid_date_bounds[OF assms(5)]
  note pm = short_digits_props[OF assms(3)]
  have ny: "CHR ''-'' \<notin> set fy" using assms(2) all_digits_no_special by blast
  have nm: "CHR ''-'' \<notin> set fm" using pm by simp
  have d: "match_toks [Dir CHR ''d''] fd = Some ([(CHR ''d'', fd)], [])"
    using match_last_d_ok[OF assms(4)] b by simp
  have m: "match_toks (fmt_tokens ''%Y-%m-%d'') (fy @ ''-'' @ fm @ ''-'' @ fd) =
             Some ([(CHR ''Y'', fy), (CHR ''m'', fm), (CHR ''d'', fd)], [])"
    using assms(1,2,3) b d
    by (simp add: match_hyphen_d[OF ny nm] fullmatch_Y fullmatch_m del: match_toks.simps)
  have i: "py_int fm = Inr (int (digits_val fm))" "py_int fd = Inr (int (digits_val fd))"
    "py_int fy = Inr (int (digits_val fy))"
    using assms(1-4) by (simp_all add: py_int_short py_int_four)
  show ?thesis
    unfolding strptime_def m using i assms(5) by (simp add: group_int_def)
qed

lemma match_last_d_long:
  assumes "3 \<le> length s"
  shows "match_toks [Dir CHR ''d''] s = None \<or> (\<exists>g r. match_toks [Dir CHR ''d''] s = Some (g, r) \<and> r \<noteq> [])"
proof -
  obtain c1 c2 c3 r where s: "s = c1 # c2 # c3 # r"
    using assms by (cases s; cases "tl s"; cases "tl (tl s)") auto
  show ?thesis unfolding s
    by (simp add: directive_alts_def split: option.splits)
qed

lemma strptime_iso_bad:
  assumes "length fy = 4" "all_digits fy" "short_digits fm"
    and "\<not> (short_digits fd \<and> valid_date (digits_val fy) (digits_val fm) (digits_val fd))"
    and "short_digits fd \<or> 3 \<le> length fd"
  shows "\<exists>e. strptime (fy @ ''-'' @ fm @ ''-'' @ fd) ''%Y-%m-%d'' = Inl e"
proof -
  note pm = short_digits_props[OF assms(3)]
  have ny: "CHR ''-'' \<notin> set fy" using assms(2) all_digits_no_special by blast
  have nm: "CHR ''-'' \<notin> set fm" using pm by simp
  let ?s = "fy @ ''-'' @ fm @ ''-'' @ fd"
  have m: "match_toks (fmt_tokens ''%Y-%m-%d'') ?s =
           (if fullmatch CHR ''Y'' fy \<and> fullmatch CHR ''m'' fm
            then (case match_toks [Dir CHR ''d''] fd of
                    None \<Rightarrow> None
                  | Some (g, r') \<Rightarrow> Some ((CHR ''Y'', fy) # (CHR ''m'', fm) # g, r'))
            else None)"
    by (simp add: match_hyphen_d[OF ny nm] del: match_toks.simps)
  show ?thesis
  proof (cases "fullmatch CHR ''Y'' fy \<and> fullmatch CHR ''m'' fm")
    case False
    show ?thesis unfolding strptime_def m if_not_P[OF False] by simp
  next
    case True
    then have mb: "1 \<le> digits_val fm" "digits_val fm \<le> 12"
      using fullmatch_m[OF assms(3)] by auto
    show ?thesis
    proof (cases "short_digits fd \<and> 1 \<le> digits_val fd \<and> digits_val fd \<le> 31")
      case ok: True
      then have d: "match_toks [Dir CHR ''d''] fd = Some ([(CHR ''d'', fd)], [])"
        using match_last_d_ok by simp
      have i: "py_int fm = Inr (int (digits_val fm))" "py_int fd = Inr (int (digits_val fd))"
        "py_int fy = Inr (int (digits_val fy))"
        using assms(1-3) ok by (simp_all add: py_int_short py_int_four)
      have "\<not> valid_date (digits_val fy) (digits_val fm) (digits_val fd)"
        using assms(4) ok by simp
      then show ?thesis unfolding strptime_def m if_P[OF True] d using i by (simp add: group_int_def)
    next
      case False
      have "match_toks [Dir CHR ''d''] fd = None \<or> (\<exists>g r. match_toks [Dir CHR ''d''] fd = Some (g, r) \<and> r \<noteq> [])"
      proof (cases "short_digits fd")
        case True
        then show ?thesis using match_last_d_bad False by simp
      next
        case False
        then show ?thesis using assms(5) match_last_d_long by simp
      qed
      then show ?thesis unfolding strptime_def m if_P[OF True] by auto
    qed
  qed
qed

lemma iso_match_shape:
  "iso_match s = (\<exists>fy fm fd nl. s = fy @ ''-'' @ fm @ ''-'' @ fd @ nl \<and> length fy = 4 \<and> all_digits fy
      \<and> length fm = 2 \<and> all_digits fm \<and> length fd = 2 \<and> all_digits fd \<and> (nl = [] \<or> nl = [CHR 0x0A]))"
  (is "?L = ?R")
proof
  assume ?L
  then obtain m rest where mr: "match_alt iso_pattern s = Some (m, rest)" "rest = [] \<or> rest = [CHR 0x0A]"
    by (auto simp: iso_match_def split: option.splits)
  have len: "length iso_pattern = 10" by (simp add: iso_pattern_def)
  from mr(1) have a: "10 \<le> length s" "list_all2 in_class iso_pattern (take 10 s)" "rest = drop 10 s"
    unfolding match_alt_closed len by (auto split: if_splits)
  then obtain c0 c1 c2 c3 c4 c5 c6 c7 c8 c9 where t: "take 10 s = [c0, c1, c2, c3, c4, c5, c6, c7, c8, c9]"
    by (auto simp: iso_pattern_def list_all2_Cons1)
  have s: "s = take 10 s @ rest" using a(3) by simp
  have "s = [c0, c1, c2, c3] @ ''-'' @ [c5, c6] @ ''-'' @ [c8, c9] @ rest"
    "all_digits [c0, c1, c2, c3]" "all_digits [c5, c6]" "all_digits [c8, c9]"
    using a(2) s unfolding t by (simp_all add: iso_pattern_def all_digits_def)
  then show ?R using mr(2)
    by (intro exI[of _ "[c0, c1, c2, c3]"] exI[of _ "[c5, c6]"] exI[of _ "[c8, c9]"] exI[of _ rest]) simp
next
  assume ?R
  then obtain fy fm fd nl where h: "s = fy @ ''-'' @ fm @ ''-'' @ fd @ nl" "length fy = 4" "all_digits fy"
      "length fm = 2" "all_digits fm" "length fd = 2" "all_digits fd" "nl = [] \<or> nl = [CHR 0x0A]"
    by blast
  obtain y1 y2 y3 y4 where fy: "fy = [y1, y2, y3, y4]" using h(2) len4 by blast
  obtain m1 m2 where fm: "fm = [m1, m2]" using h(4) len2 by blast
  obtain d1 d2 where fd: "fd = [d1, d2]" using h(6) len2 by blast
  show ?L using h(3,5,7,8) unfolding h(1) fy fm fd
    by (auto simp: iso_match_def iso_pattern_def all_digits_def)
qed

lemma dec2: "n < 100 \<Longrightarrow> 10 * (n div 10 mod 10) + n mod 10 = (n::nat)"
proof -
  assume "n < 100"
  then have "n div 10 < 10" by simp
  then have "n div 10 mod 10 = n div 10" by simp
  then show ?thesis by simp
qed

lemma dec4:
  assumes "n < 10000"
  shows "1000 * (n div 1000 mod 10) + 100 * (n div 100 mod 10) + 10 * (n div 10 mod 10) + n mod 10 = (n::nat)"
proof -
  define q1 where "q1 = n div 10"
  define q2 where "q2 = q1 div 10"
  define q3 where "q3 = q2 div 10"
  define r0 where "r0 = n mod 10"
  define r1 where "r1 = q1 mod 10"
  define r2 where "r2 = q2 mod 10"
  have e2: "n div 100 = q2" unfolding q2_def q1_def by (simp add: div_mult2_eq[symmetric])
  have e3: "n div 1000 = q3" unfolding q3_def q2_def q1_def by (simp add: div_mult2_eq[symmetric])
  have "n div 1000 < 10" using assms by simp
  then have "q3 < 10" using e3 by simp
  then have m3: "q3 mod 10 = q3" by simp
  have n0: "n = 10 * q1 + r0" unfolding q1_def r0_def by simp
  have n1: "q1 = 10 * q2 + r1" unfolding q2_def r1_def by simp
  have n2: "q2 = 10 * q3 + r2" unfolding q3_def r2_def by simp
  have "1000 * q3 + 100 * r2 + 10 * r1 + r0 = n"
    using n0 n1 n2 by simp
  then show ?thesis
    unfolding e2 e3 m3 r0_def[symmetric] r1_def[symmetric] r2_def[symmetric] q1_def[symmetric] .
qed

lemma zpad2_props:
  assumes "n < 100"
  shows "short_digits (zpad2 n)" "length (zpad2 n) = 2" "all_digits (zpad2 n)" "digits_val (zpad2 n) = n"
proof -
  have a: "n div 10 mod 10 < 10" "n mod 10 < 10" by simp_all
  show "short_digits (zpad2 n)" "length (zpad2 n) = 2" "all_digits (zpad2 n)"
    using a by (simp_all add: zpad2_def short_digits_def all_digits_def is_digit_digit_char)
  have v: "digits_val (zpad2 n) = 10 * (n div 10 mod 10) + n mod 10"
    using a by (simp add: zpad2_def digits_val_2 digit_val_digit_char)
  show "digits_val (zpad2 n) = n"
    by (rule trans[OF v dec2[OF assms]])
qed

lemma zpad4_props:
  assumes "n < 10000"
  shows "length (zpad4 n) = 4" "all_digits (zpad4 n)" "digits_val (zpad4 n) = n"
proof -
  have a: "n div 1000 mod 10 < 10" "n div 100 mod 10 < 10" "n div 10 mod 10 < 10" "n mod 10 < 10" by simp_all
  show "length (zpad4 n) = 4" "all_digits (zpad4 n)"
    using a by (simp_all add: zpad4_def all_digits_def is_digit_digit_char)
  have v: "digits_val (zpad4 n) =
      1000 * (n div 1000 mod 10) + 100 * (n div 100 mod 10) + 10 * (n div 10 mod 10) + n mod 10"
    using a by (simp add: zpad4_def digits_val_4 digit_val_digit_char)
  show "digits_val (zpad4 n) = n"
    by (rule trans[OF v dec4[OF assms]])
qed

declare decimal.simps [simp del]

lemma decimal_zpad4:
  assumes "1000 \<le> y" "y \<le> 9999"
  shows "decimal y = zpad4 y"
proof -
  have a: "\<not> y < 10" "\<not> y div 10 < 10" "\<not> y div 100 < 10" "y div 1000 < 10"
    using assms by simp_all
  have d: "y div 10 div 10 = y div 100" "y div 100 div 10 = y div 1000"
    by (simp_all add: div_mult2_eq[symmetric])
  have s1: "decimal y = decimal (y div 10) @ [digit_char (y mod 10)]"
    using a(1) by (simp add: decimal.simps[of y])
  have s2: "decimal (y div 10) = decimal (y div 100) @ [digit_char (y div 10 mod 10)]"
    using a(2) d(1) by (simp add: decimal.simps[of "y div 10"])
  have s3: "decimal (y div 100) = decimal (y div 1000) @ [digit_char (y div 100 mod 10)]"
    using a(3) d(2) by (simp add: decimal.simps[of "y div 100"])
  have s4: "decimal (y div 1000) = [digit_char (y div 1000)]"
    using a(4) by (simp add: decimal.simps[of "y div 1000"])
  have m: "y div 1000 mod 10 = y div 1000" using a(4) by simp
  show ?thesis unfolding s1 s2 s3 s4 zpad4_def m by simp
qed

lemma strftime_used:
  assumes "1000 \<le> year dt" "year dt \<le> 9999"
  shows "strftime dt ''%Y-%m-%d'' = zpad4 (year dt) @ ''-'' @ zpad2 (month dt) @ ''-'' @ zpad2 (day dt)"
    and "strftime dt ''%d/%m/%Y'' = zpad2 (day dt) @ ''/'' @ zpad2 (month dt) @ ''/'' @ zpad4 (year dt)"
    and "strftime dt ''%m/%d/%Y'' = zpad2 (month dt) @ ''/'' @ zpad2 (day dt) @ ''/'' @ zpad4 (year dt)"
  by (simp_all add: strftime_def decimal_zpad4[OF assms])

lemma date_of_sel [simp]:
  "year (date_of y m d) = y" "month (date_of y m d) = m" "day (date_of y m d) = d"
  "hour (date_of y m d) = 0" "minute (date_of y m d) = 0" "second (date_of y m d) = 0"
  "microsecond (date_of y m d) = 0" "utcoffset (date_of y m d) = None"
  by (simp_all add: date_of_def)

lemma parse_date_iso_render:
  assumes "valid_date y m d"
  shows "iso_match (zpad4 y @ ''-'' @ zpad2 m @ ''-'' @ zpad2 d)"
    and "parse_date P (zpad4 y @ ''-'' @ zpad2 m @ ''-'' @ zpad2 d) h = Inr (date_of y m d)"
proof -
  note b = valid_date_bounds[OF assms]
  have y: "y < 10000" and m: "m < 100" and d: "d < 100" using b by auto
  note py = zpad4_props[OF y] and pm = zpad2_props[OF m] and pd = zpad2_props[OF d]
  show i: "iso_match (zpad4 y @ ''-'' @ zpad2 m @ ''-'' @ zpad2 d)"
    unfolding iso_match_shape
    using py pm pd by (intro exI[of _ "zpad4 y"] exI[of _ "zpad2 m"] exI[of _ "zpad2 d"] exI[of _ "[]"]) simp
  have "strptime (zpad4 y @ ''-'' @ zpad2 m @ ''-'' @ zpad2 d) ''%Y-%m-%d'' = Inr (date_of y m d)"
    using strptime_iso_ok[OF py(1,2) pm(1) pd(1)] assms py(3) pm(4) pd(4) by simp
  then show "parse_date P (zpad4 y @ ''-'' @ zpad2 m @ ''-'' @ zpad2 d) h = Inr (date_of y m d)"
    using i by (simp add: parse_date_def)
qed

lemma four_digits_le: "length yt = 4 \<Longrightarrow> all_digits yt \<Longrightarrow> digits_val yt \<le> 9999"
proof -
  assume a: "length yt = 4" "all_digits yt"
  then obtain c1 c2 c3 c4 where yt: "yt = [c1, c2, c3, c4]" using len4 by blast
  then have "digit_val c1 < 10" "digit_val c2 < 10" "digit_val c3 < 10" "digit_val c4 < 10"
    using a(2) by (simp_all add: all_digits_def digit_val_less)
  then show ?thesis unfolding yt digits_val_4 by linarith
qed

lemma small_day_valid: "1 \<le> y \<Longrightarrow> y \<le> 9999 \<Longrightarrow> 1 \<le> m \<Longrightarrow> m \<le> 12 \<Longrightarrow> 1 \<le> d \<Longrightarrow> d \<le> 12 \<Longrightarrow> valid_date y m d"
  by (simp add: valid_date_def days_in_month_def)


lemma match_alt_Some_iff:
  "match_alt a s = Some (m, r) \<longleftrightarrow> s = m @ r \<and> list_all2 in_class a m"
proof
  assume "match_alt a s = Some (m, r)"
  then have "length a \<le> length s" "list_all2 in_class a (take (length a) s)"
    "m = take (length a) s" "r = drop (length a) s"
    unfolding match_alt_closed by (auto split: if_splits)
  then show "s = m @ r \<and> list_all2 in_class a m" by simp
next
  assume h: "s = m @ r \<and> list_all2 in_class a m"
  then have "length a = length m" by (auto dest: list_all2_lengthD)
  then show "match_alt a s = Some (m, r)" using h unfolding match_alt_closed by simp
qed

lemma list_all2_replicate_Digit:
  "list_all2 in_class (replicate n Digit) m \<longleftrightarrow> length m = n \<and> all_digits m"
proof (induction n arbitrary: m)
  case 0
  show ?case by (auto simp: all_digits_def)
next
  case (Suc n)
  show ?case
  proof (cases m)
    case Nil
    then show ?thesis by simp
  next
    case (Cons c cs)
    then show ?thesis using Suc.IH[of cs] by (auto simp: all_digits_def)
  qed
qed

lemma digits_then:
  assumes "list_all2 in_class (replicate n Digit @ ks) s"
  obtains f r where "s = f @ r" "length f = n" "all_digits f" "list_all2 in_class ks r"
  using assms by (auto simp: list_all2_append1 list_all2_replicate_Digit)

lemma exact_then:
  assumes "list_all2 in_class (Exactly c # ks) s"
  obtains r where "s = c # r" "list_all2 in_class ks r"
  using assms by (auto simp: list_all2_Cons1)

lemma date_shape_match:
  assumes "list_all2 in_class (date_shape sep n1 n2) s"
  shows "\<exists>fa fb yt. s = fa @ sep # fb @ sep # yt \<and> length fa = n1 \<and> all_digits fa
        \<and> length fb = n2 \<and> all_digits fb \<and> length yt = 4 \<and> all_digits yt"
proof -
  from assms have a: "list_all2 in_class (replicate n1 Digit @ (Exactly sep # (replicate n2 Digit @ (Exactly sep # replicate 4 Digit)))) s"
    by (simp add: date_shape_def)
  from a obtain fa r1 where 1: "s = fa @ r1" "length fa = n1" "all_digits fa"
    "list_all2 in_class (Exactly sep # (replicate n2 Digit @ (Exactly sep # replicate 4 Digit))) r1"
    by (rule digits_then)
  from 1(4) obtain r2 where 2: "r1 = sep # r2"
    "list_all2 in_class (replicate n2 Digit @ (Exactly sep # replicate 4 Digit)) r2"
    by (rule exact_then)
  from 2(2) obtain fb r3 where 3: "r2 = fb @ r3" "length fb = n2" "all_digits fb"
    "list_all2 in_class (Exactly sep # replicate 4 Digit) r3"
    by (rule digits_then)
  from 3(4) obtain yt where 4: "r3 = sep # yt" "list_all2 in_class (replicate 4 Digit) yt"
    by (rule exact_then)
  from 4(2) have 5: "length yt = 4" "all_digits yt"
    by (simp_all add: list_all2_replicate_Digit)
  show ?thesis using 1 2 3 4 5 by blast
qed

lemma MDY_PATTERNS_mem:
  assumes "a \<in> set MDY_PATTERNS"
  obtains sep n1 n2 where "a = date_shape sep n1 n2" "is_sep sep" "n1 = 1 \<or> n1 = 2" "n2 = 1 \<or> n2 = 2"
  using assms unfolding MDY_PATTERNS_def is_sep_def by auto

lemma found_by_patterns_shape:
  assumes "found_by_patterns s"
  obtains fa fb yt sep where "s = fa @ sep # fb @ sep # yt" "is_sep sep" "short_digits fa"
      "short_digits fb" "length yt = 4" "all_digits yt"
proof -
  from assms obtain a where a: "a \<in> set MDY_PATTERNS" "list_all2 in_class a s"
    unfolding found_by_patterns_def list_ex_iff match_alt_Some_iff by auto
  from a(1) obtain sep n1 n2 where p: "a = date_shape sep n1 n2" "is_sep sep" "n1 = 1 \<or> n1 = 2" "n2 = 1 \<or> n2 = 2"
    by (rule MDY_PATTERNS_mem)
  from date_shape_match[OF a(2)[unfolded p(1)]] obtain fa fb yt where
    h: "s = fa @ sep # fb @ sep # yt" "length fa = n1" "all_digits fa"
       "length fb = n2" "all_digits fb" "length yt = 4" "all_digits yt" by blast
  have "short_digits fa" "short_digits fb" using h p(3,4) by (auto simp: short_digits_def)
  then show ?thesis using that h p(2) by blast
qed

lemma re_split_nosep: "list_all (\<lambda>c. \<not> is_sep c) f \<Longrightarrow> re_split f = [f]"
  by (induction f) auto

lemma re_split_field:
  "list_all (\<lambda>c. \<not> is_sep c) f \<Longrightarrow> is_sep sep \<Longrightarrow> re_split (f @ sep # r) = f # re_split r"
  by (induction f) auto

lemma all_digits_nosep: "all_digits f \<Longrightarrow> list_all (\<lambda>c. \<not> is_sep c) f"
  using is_digit_not_special by (auto simp: all_digits_def list_all_iff)

lemma re_split_date:
  assumes "all_digits fa" "all_digits fb" "all_digits yt" "is_sep sep"
  shows "re_split (fa @ sep # fb @ sep # yt) = [fa, fb, yt]"
  using assms by (simp add: re_split_field re_split_nosep all_digits_nosep)

lemma detect_step:
  assumes "found_by_patterns s"
  shows "detect_page_date_format (s # rest) =
           (if 12 < field_val 0 s then Inr DMY
            else if 12 < field_val 1 s then Inr MDY
            else detect_page_date_format rest)"
proof -
  from assms obtain fa fb yt sep where h: "s = fa @ sep # fb @ sep # yt" "is_sep sep" "short_digits fa"
      "short_digits fb" "length yt = 4" "all_digits yt"
    by (rule found_by_patterns_shape)
  have sp: "re_split s = [fa, fb, yt]"
    unfolding h(1) using h(2-6) by (simp add: re_split_date short_digits_def)
  have i: "py_int fa = Inr (int (digits_val fa))" "py_int fb = Inr (int (digits_val fb))"
    "py_int yt = Inr (int (digits_val yt))"
    using h by (simp_all add: py_int_short py_int_four)
  show ?thesis
    using i by (simp add: sp field_val_def Let_def)
qed

lemma detect_all:
  "list_all found_by_patterns ds \<Longrightarrow>
   detect_page_date_format ds =
     Inr (case find decisive ds of None \<Rightarrow> MDY | Some s \<Rightarrow> if 12 < field_val 0 s then DMY else MDY)"
proof (induction ds)
  case Nil
  show ?case by simp
next
  case (Cons s ds)
  then have "found_by_patterns s" "list_all found_by_patterns ds" by simp_all
  then show ?case
    using Cons.IH by (simp add: detect_step decisive_def del: detect_page_date_format.simps)
qed

lemma detect_first_decisive:
  assumes "list_all found_by_patterns xs" "\<not> list_ex decisive xs" "found_by_patterns t" "decisive t"
  shows "detect_page_date_format (xs @ t # ys) = Inr (if 12 < field_val 0 t then DMY else MDY)"
  using assms(1,2)
proof (induction xs)
  case Nil
  show ?case using assms(3,4)
    by (auto simp: detect_step decisive_def simp del: detect_page_date_format.simps)
next
  case (Cons x xs)
  then show ?case
    by (simp add: detect_step decisive_def del: detect_page_date_format.simps)
qed

lemma iso_match_parse:
  assumes "iso_match s"
  shows "length s = 10 \<and> valid_date (digits_val (take 4 s)) (digits_val (take 2 (drop 5 s)))
             (digits_val (take 2 (drop 8 s))) \<Longrightarrow>
           strptime s ''%Y-%m-%d'' =
             Inr (date_of (digits_val (take 4 s)) (digits_val (take 2 (drop 5 s)))
                    (digits_val (take 2 (drop 8 s))))"
    and "\<not> (length s = 10 \<and> valid_date (digits_val (take 4 s)) (digits_val (take 2 (drop 5 s)))
             (digits_val (take 2 (drop 8 s)))) \<Longrightarrow>
           \<exists>e. strptime s ''%Y-%m-%d'' = Inl e"
proof -
  from assms obtain fy fm fd nl where h: "s = fy @ ''-'' @ fm @ ''-'' @ fd @ nl" "length fy = 4"
      "all_digits fy" "length fm = 2" "all_digits fm" "length fd = 2" "all_digits fd"
      "nl = [] \<or> nl = [CHR 0x0A]"
    unfolding iso_match_shape by blast
  have sm: "short_digits fm" and sd: "short_digits fd" using h by (simp_all add: short_digits_def)
  have t: "take 4 s = fy" "take 2 (drop 5 s) = fm" "take 2 (drop 8 s) = fd"
    using h(2,4,6) unfolding h(1) by simp_all
  have len: "length s = 10 \<longleftrightarrow> nl = []" using h(2,4,6) unfolding h(1) by simp
  {
    assume a: "length s = 10 \<and> valid_date (digits_val (take 4 s)) (digits_val (take 2 (drop 5 s)))
             (digits_val (take 2 (drop 8 s)))"
    then have nl: "nl = []" using len by simp
    have "strptime (fy @ ''-'' @ fm @ ''-'' @ fd) ''%Y-%m-%d'' =
            Inr (date_of (digits_val fy) (digits_val fm) (digits_val fd))"
      using strptime_iso_ok[OF h(2,3) sm sd] a unfolding t by simp
    then show "strptime s ''%Y-%m-%d'' =
             Inr (date_of (digits_val (take 4 s)) (digits_val (take 2 (drop 5 s)))
                    (digits_val (take 2 (drop 8 s))))"
      unfolding t unfolding h(1) nl by simp
  }
  {
    assume a: "\<not> (length s = 10 \<and> valid_date (digits_val (take 4 s)) (digits_val (take 2 (drop 5 s)))
             (digits_val (take 2 (drop 8 s))))"
    have n: "\<not> (short_digits (fd @ nl) \<and> valid_date (digits_val fy) (digits_val fm) (digits_val (fd @ nl)))"
    proof (cases "nl = []")
      case True
      then show ?thesis using a len unfolding t by simp
    next
      case False
      then have "length (fd @ nl) = 3" using h(6,8) by auto
      then show ?thesis by (simp add: short_digits_def)
    qed
    have l: "short_digits (fd @ nl) \<or> 3 \<le> length (fd @ nl)"
      using h(6,8) sd by auto
    show "\<exists>e. strptime s ''%Y-%m-%d'' = Inl e"
      using strptime_iso_bad[OF h(2,3) sm n l] unfolding h(1) by simp
  }
qed

lemma strptime_result:
  assumes "strptime s f = Inr dt"
  shows "at_midnight dt \<and> valid_date (year dt) (month dt) (day dt)"
  using assms unfolding strptime_def
  by (auto simp: at_midnight_def split: option.splits prod.splits if_splits sum.splits)

lemma try_formats_result:
  "try_formats s fs = Some dt \<Longrightarrow> at_midnight dt \<and> valid_date (year dt) (month dt) (day dt)"
proof (induction fs)
  case Nil
  then show ?case by simp
next
  case (Cons f fs)
  then show ?case using strptime_result[of s f dt] by (auto split: sum.splits)
qed

lemma resolved_explicitly_result:
  assumes "resolved_explicitly s" "parse_date P s h = Inr dt"
  shows "at_midnight dt \<and> valid_date (year dt) (month dt) (day dt)"
proof (cases "iso_match s")
  case True
  then show ?thesis using assms(2) strptime_result by (simp add: parse_date_def)
next
  case False
  then obtain dt' where t: "try_formats s [''%Y-%m-%d'', ''%d/%m/%Y'', ''%m/%d/%Y'', ''%Y/%m/%d''] = Some dt'"
    using assms(1) by (auto simp: resolved_explicitly_def)
  then have "dt' = dt" using assms(2) False unfolding parse_date_def by simp
  then show ?thesis using try_formats_result[OF t] by simp
qed




lemma at_midnight_naive: "at_midnight a \<Longrightarrow> naive a"
  by (simp add: at_midnight_def naive_def)








lemma date_part_midnight: "at_midnight dt \<Longrightarrow> date_part dt = dt"
  by (simp add: date_part_def date_of_def at_midnight_def)

lemma format_for_api_reparse:
  assumes "parse_date P s None = Inr dt" "valid_date (year dt) (month dt) (day dt)"
    and "1000 \<le> year dt"
  shows "\<exists>iso. format_for_api P s = Inr iso \<and> iso_match iso \<and> parse_date P iso h = Inr (date_part dt)"
proof -
  let ?iso = "zpad4 (year dt) @ ''-'' @ zpad2 (month dt) @ ''-'' @ zpad2 (day dt)"
  have y: "year dt \<le> 9999" using valid_date_bounds[OF assms(2)] by simp
  have "format_for_api P s = Inr ?iso"
    using assms(1) by (simp add: format_for_api_def strftime_used[OF assms(3) y])
  moreover have "iso_match ?iso" by (rule parse_date_iso_render(1)[OF assms(2)])
  moreover have "parse_date P ?iso h = Inr (date_part dt)"
    unfolding date_part_def by (rule parse_date_iso_render(2)[OF assms(2)])
  ultimately show ?thesis by blast
qed




subsection \<open>Evaluation at concrete inputs\<close>

lemma digit_char_lits:
  "digit_char 0 = CHR ''0''" "digit_char 1 = CHR ''1''" "digit_char 2 = CHR ''2''"
  "digit_char 3 = CHR ''3''" "digit_char 4 = CHR ''4''" "digit_char 5 = CHR ''5''"
  "digit_char 6 = CHR ''6''" "digit_char 7 = CHR ''7''" "digit_char 8 = CHR ''8''"
  "digit_char 9 = CHR ''9''" "digit_char (Suc 0) = CHR ''1''"
  by (rule of_char_eq_iff[where ?'a = nat, THEN iffD1], simp add: digit_char_def)+

lemmas eval_defs =
  parse_date_def iso_match_def iso_pattern_def is_digit_def strptime_def directive_alts_def
  group_int_def py_int_def strip_def is_space_def is_sep_def digits_val_def digit_val_def
  valid_date_def days_in_month_def is_leap_def Let_def format_for_display_def strftime_def
  zpad2_def zpad4_def decimal_zpad4 digit_char_lits format_for_api_def format_range_for_api_def
  is_date_in_range_def parse_range_def to_page_format_def dateutil_sample_def
  short_digits_def all_digits_def dt_le_def dt_fields_def

section \<open>Claims\<close>

text \<open>
  C1 (as the code has it). For every valid calendar date with a four-digit year, rendering it
  as \<^verbatim>\<open>YYYY-MM-DD\<close> and parsing with no hint, or as \<^verbatim>\<open>DD/MM/YYYY\<close> and parsing with
  the hint \<^verbatim>\<open>DMY\<close>, returns the date again. Rendering it as \<^verbatim>\<open>MM/DD/YYYY\<close> and parsing
  with the hint \<^verbatim>\<open>MDY\<close> returns the date again only when its day exceeds 12 or equals its
  month; otherwise the parse returns the date with day and month exchanged, because
  \<^verbatim>\<open>%d/%m/%Y\<close> is tried first and the hint is not consulted.
\<close>

theorem round_trip_render_parse:
  assumes "valid_date y m d" "1000 \<le> y"
  shows "parse_date P (format_for_display (date_of y m d) ''%Y-%m-%d'') None = Inr (date_of y m d)
       \<and> parse_date P (format_for_display (date_of y m d) ''%d/%m/%Y'') (Some DMY) = Inr (date_of y m d)
       \<and> parse_date P (format_for_display (date_of y m d) ''%m/%d/%Y'') (Some MDY) =
           Inr (if d \<le> 12 then date_of y d m else date_of y m d)"
proof -
  note b = valid_date_bounds[OF assms(1)]
  have y: "y < 10000" and m: "m < 100" and d: "d < 100" using b by auto
  note py = zpad4_props[OF y] and pm = zpad2_props[OF m] and pd = zpad2_props[OF d]
  have yb: "1000 \<le> year (date_of y m d)" "year (date_of y m d) \<le> 9999" using assms(2) b by simp_all
  note strftime_used = strftime_used[OF yb]
  have 1: "parse_date P (format_for_display (date_of y m d) ''%Y-%m-%d'') None = Inr (date_of y m d)"
    using parse_date_iso_render(2)[OF assms(1)] by (simp add: format_for_display_def strftime_used)
  have 2: "parse_date P (format_for_display (date_of y m d) ''%d/%m/%Y'') (Some DMY) = Inr (date_of y m d)"
    using parse_date_slash[OF pd(1), of P "zpad2 m @ ''/'' @ zpad4 y" "Some DMY"]
      strptime_dmY_ok[OF pd(1) pm(1) py(1,2)] assms(1) py(3) pm(4) pd(4)
    by (simp add: format_for_display_def strftime_used)
  have 3: "parse_date P (format_for_display (date_of y m d) ''%m/%d/%Y'') (Some MDY) =
           Inr (if d \<le> 12 then date_of y d m else date_of y m d)"
  proof (cases "d \<le> 12")
    case True
    then have v: "valid_date y d m" using b by (simp add: small_day_valid)
    show ?thesis
      using parse_date_slash[OF pm(1), of P "zpad2 d @ ''/'' @ zpad4 y" "Some MDY"]
        strptime_dmY_ok[OF pm(1) pd(1) py(1,2)] v True py(3) pm(4) pd(4)
      by (simp add: format_for_display_def strftime_used)
  next
    case False
    then have "\<not> valid_date y d m" by (simp add: valid_date_def)
    then obtain e where "strptime (zpad2 m @ ''/'' @ zpad2 d @ ''/'' @ zpad4 y) ''%d/%m/%Y'' = Inl e"
      using strptime_dmY_bad[OF pm(1) pd(1), of "zpad4 y"] py(3) pm(4) pd(4) by auto
    then show ?thesis
      using parse_date_slash[OF pm(1), of P "zpad2 d @ ''/'' @ zpad4 y" "Some MDY"]
        strptime_mdY_ok[OF pm(1) pd(1) py(1,2)] assms(1) False py(3) pm(4) pd(4)
      by (simp add: format_for_display_def strftime_used)
  qed
  show ?thesis using 1 2 3 by simp
qed

theorem round_trip_render_parse_witness:
  "valid_date 2024 2 29 \<and> (1000::nat) \<le> 2024
   \<and> parse_date dateutil_sample (format_for_display (date_of 2024 2 29) ''%Y-%m-%d'') None
       = Inr (date_of 2024 2 29)
   \<and> parse_date dateutil_sample (format_for_display (date_of 2024 2 29) ''%d/%m/%Y'') (Some DMY)
       = Inr (date_of 2024 2 29)
   \<and> parse_date dateutil_sample (format_for_display (date_of 2024 2 29) ''%m/%d/%Y'') (Some MDY)
       = Inr (date_of 2024 2 29)"
proof -
  have v: "valid_date 2024 2 29"
    by (simp add: valid_date_def days_in_month_def is_leap_def)
  have y: "(1000::nat) \<le> 2024" by simp
  show ?thesis
    using v round_trip_render_parse[OF v y, of dateutil_sample] by simp
qed

theorem round_trip_month_first_counterexample:
  "parse_date dateutil_sample (format_for_display (date_of 2025 3 8) ''%m/%d/%Y'') (Some MDY)
     = Inr (date_of 2025 8 3)
   \<and> date_of 2025 8 3 \<noteq> date_of 2025 3 8"
  by (simp add: eval_defs date_of_def)

text \<open>
  C2. For every input \<^verbatim>\<open>a/b/YYYY\<close> with a four-digit year whose two fields are both
  between 1 and 12, \<^verbatim>\<open>parse_date\<close> returns the day-first reading (day \<open>a\<close>, month \<open>b\<close>),
  whatever the hint and whatever the library would do: the table of explicit formats tries
  \<^verbatim>\<open>%d/%m/%Y\<close> before \<^verbatim>\<open>%m/%d/%Y\<close>, and the hint is read only after every explicit
  format has failed.
\<close>

theorem ambiguous_slash_date_is_day_first:
  assumes "short_digits fa" "short_digits fb" "length yt = 4" "all_digits yt"
    and "1 \<le> digits_val fa" "digits_val fa \<le> 12" "1 \<le> digits_val fb" "digits_val fb \<le> 12"
    and "1 \<le> digits_val yt"
  shows "parse_date P (fa @ ''/'' @ fb @ ''/'' @ yt) h =
           Inr (date_of (digits_val yt) (digits_val fb) (digits_val fa))"
proof -
  have v: "valid_date (digits_val yt) (digits_val fb) (digits_val fa)"
    using assms four_digits_le[OF assms(3,4)] by (simp add: small_day_valid)
  show ?thesis
    using parse_date_slash[OF assms(1), of P "fb @ ''/'' @ yt" h]
      strptime_dmY_ok[OF assms(1-4) v]
    by simp
qed

theorem ambiguous_slash_date_is_day_first_witness:
  "short_digits ''01'' \<and> short_digits ''3'' \<and> length ''2025'' = 4 \<and> all_digits ''2025''
   \<and> digits_val ''01'' = 1 \<and> digits_val ''3'' = 3 \<and> digits_val ''2025'' = 2025
   \<and> parse_date dateutil_sample ''01/3/2025'' (Some MDY) = Inr (date_of 2025 3 1)"
proof -
  have h: "short_digits ''01''" "short_digits ''3''" "length ''2025'' = 4" "all_digits ''2025''"
    "1 \<le> digits_val ''01''" "digits_val ''01'' \<le> 12" "1 \<le> digits_val ''3''"
    "digits_val ''3'' \<le> 12" "1 \<le> digits_val ''2025''"
    by (simp_all add: short_digits_def all_digits_def is_digit_def digits_val_def digit_val_def)
  have v: "digits_val ''01'' = 1" "digits_val ''3'' = 3" "digits_val ''2025'' = 2025"
    by (simp_all add: digits_val_def digit_val_def)
  show ?thesis
    using h v ambiguous_slash_date_is_day_first[OF h, of dateutil_sample "Some MDY"] by simp
qed

text \<open>
  C3 (as the code has it). \<^verbatim>\<open>format_range_for_api\<close> takes no hint: each boundary is parsed
  by \<^verbatim>\<open>parse_date\<close> with no hint and rendered as \<^verbatim>\<open>YYYY-MM-DD\<close>, and it succeeds exactly
  when both boundaries parse. For \<^verbatim>\<open>('01/03/2025', '08/03/2025')\<close> the explicit day-first
  format decides, and the result is \<^verbatim>\<open>('2025-03-01', '2025-03-08')\<close>.
\<close>

theorem format_range_for_api_day_first:
  "format_range_for_api P ''01/03/2025'' ''08/03/2025'' = Inr (''2025-03-01'', ''2025-03-08'')
   \<and> (format_range_for_api P start_str end_str = Inr (a, b)) =
       (\<exists>start end'. parse_date P start_str None = Inr start \<and> parse_date P end_str None = Inr end'
          \<and> a = strftime start ''%Y-%m-%d'' \<and> b = strftime end' ''%Y-%m-%d'')"
proof
  show "format_range_for_api P ''01/03/2025'' ''08/03/2025'' = Inr (''2025-03-01'', ''2025-03-08'')"
    by (simp add: eval_defs)
next
  show "(format_range_for_api P start_str end_str = Inr (a, b)) =
       (\<exists>start end'. parse_date P start_str None = Inr start \<and> parse_date P end_str None = Inr end'
          \<and> a = strftime start ''%Y-%m-%d'' \<and> b = strftime end' ''%Y-%m-%d'')"
    by (auto simp: format_range_for_api_def format_for_api_def split: sum.splits)
qed

theorem format_range_for_api_counterexample:
  "format_range_for_api dateutil_sample ''01/03/2025'' ''08/03/2025''
     = Inr (''2025-03-01'', ''2025-03-08'')
   \<and> (''2025-03-01'', ''2025-03-08'') \<noteq> (''2025-01-03'', ''2025-08-03'')"
  by (simp add: eval_defs)

text \<open>
  C4. A string that matches \<^verbatim>\<open>^\d{4}-\d{2}-\d{2}$\<close> is parsed directly as year-month-day:
  the result is that of \<^verbatim>\<open>strptime(date_str, "%Y-%m-%d")\<close>, which depends neither on the
  hint nor on the library; it is the date whose fields are the three digit groups when these
  form a calendar date, and an error otherwise. In particular \<^verbatim>\<open>2025-03-08\<close> is 8 March 2025
  under every hint.
\<close>

theorem iso_takes_priority:
  "(iso_match s \<longrightarrow> parse_date P s h = strptime s ''%Y-%m-%d'')
   \<and> (iso_match s \<and> length s = 10
        \<and> valid_date (digits_val (take 4 s)) (digits_val (take 2 (drop 5 s)))
             (digits_val (take 2 (drop 8 s))) \<longrightarrow>
        parse_date P s h =
          Inr (date_of (digits_val (take 4 s)) (digits_val (take 2 (drop 5 s)))
                 (digits_val (take 2 (drop 8 s)))))
   \<and> (iso_match s
        \<and> \<not> (length s = 10
              \<and> valid_date (digits_val (take 4 s)) (digits_val (take 2 (drop 5 s)))
                   (digits_val (take 2 (drop 8 s)))) \<longrightarrow>
        (\<exists>e. parse_date P s h = Inl e))
   \<and> parse_date P ''2025-03-08'' h = Inr (date_of 2025 3 8)"
proof (intro conjI impI)
  assume "iso_match s"
  then show "parse_date P s h = strptime s ''%Y-%m-%d''" by (simp add: parse_date_def)
next
  assume a: "iso_match s \<and> length s = 10
        \<and> valid_date (digits_val (take 4 s)) (digits_val (take 2 (drop 5 s)))
             (digits_val (take 2 (drop 8 s)))"
  then have i: "iso_match s" by simp
  have p: "parse_date P s h = strptime s ''%Y-%m-%d''" using i by (simp add: parse_date_def)
  show "parse_date P s h =
          Inr (date_of (digits_val (take 4 s)) (digits_val (take 2 (drop 5 s)))
                 (digits_val (take 2 (drop 8 s))))"
    unfolding p by (rule iso_match_parse(1)[OF i conjunct2[OF a]])
next
  assume a: "iso_match s
        \<and> \<not> (length s = 10
              \<and> valid_date (digits_val (take 4 s)) (digits_val (take 2 (drop 5 s)))
                   (digits_val (take 2 (drop 8 s))))"
  then have i: "iso_match s" by simp
  have p: "parse_date P s h = strptime s ''%Y-%m-%d''" using i by (simp add: parse_date_def)
  show "\<exists>e. parse_date P s h = Inl e"
    unfolding p by (rule iso_match_parse(2)[OF i conjunct2[OF a]])
next
  show "parse_date P ''2025-03-08'' h = Inr (date_of 2025 3 8)"
    by (simp add: eval_defs)
qed

theorem iso_takes_priority_witness:
  "iso_match ''2024-02-29'' \<and> length ''2024-02-29'' = 10 \<and> valid_date 2024 2 29
   \<and> parse_date dateutil_sample ''2024-02-29'' (Some DMY) = Inr (date_of 2024 2 29)
   \<and> iso_match ''2025-02-30'' \<and> \<not> valid_date 2025 2 30
   \<and> (\<exists>e. parse_date dateutil_sample ''2025-02-30'' (Some MDY) = Inl e)"
proof -
  have a: "iso_match ''2024-02-29''" "iso_match ''2025-02-30''"
    by (simp_all add: iso_match_def iso_pattern_def is_digit_def)
  have v: "valid_date 2024 2 29" "\<not> valid_date 2025 2 30"
    by (simp_all add: valid_date_def days_in_month_def is_leap_def)
  have d: "digits_val ''2024'' = 2024" "digits_val ''02'' = 2" "digits_val ''29'' = 29"
    "digits_val ''2025'' = 2025" "digits_val ''30'' = 30"
    by (simp_all add: digits_val_def digit_val_def)
  have 1: "parse_date dateutil_sample ''2024-02-29'' (Some DMY) = Inr (date_of 2024 2 29)"
    using a v d
      iso_takes_priority[of "''2024-02-29''" dateutil_sample "Some DMY",
        THEN conjunct2, THEN conjunct1]
    by simp
  have 2: "\<exists>e. parse_date dateutil_sample ''2025-02-30'' (Some MDY) = Inl e"
    using a v d
      iso_takes_priority[of "''2025-02-30''" dateutil_sample "Some MDY",
        THEN conjunct2, THEN conjunct2, THEN conjunct1]
    by simp
  show ?thesis using a v 1 2 by simp
qed

text \<open>
  C5 (as the code has it). \<^verbatim>\<open>parse_date('not-a-date')\<close> fails: with no hint the failure is
  the \<^verbatim>\<open>ValueError\<close> of \<^verbatim>\<open>int('not')\<close>, with a hint it is whatever the library raises.
  A failure of \<^verbatim>\<open>parse_date\<close> on any argument passes unchanged through
  \<^verbatim>\<open>format_for_api\<close>, \<^verbatim>\<open>parse_range\<close>, \<^verbatim>\<open>is_date_in_range\<close> and
  \<^verbatim>\<open>format_range_for_api\<close>: each returns the error of the first argument, in its order of
  evaluation, that fails to parse. The page-format conversion is the exception: when no
  explicit format matches and the library fails, \<^verbatim>\<open>to_page_format\<close> returns its input
  unchanged.
\<close>

theorem failures_propagate_except_page_format:
  "parse_date P ''not-a-date'' None = Inl (InvalidLiteral ''not'')
   \<and> parse_date P ''not-a-date'' (Some f) = P ''not-a-date'' (f = DMY)
   \<and> (parse_date P s None = Inl e \<longrightarrow>
        format_for_api P s = Inl e
        \<and> parse_range P s t = Inl e
        \<and> is_date_in_range P s t u = Inl e
        \<and> format_range_for_api P s t = Inl e)
   \<and> (parse_date P s None = Inr x \<and> parse_date P t None = Inl e \<longrightarrow>
        parse_range P s t = Inl e
        \<and> is_date_in_range P s t u = Inl e
        \<and> format_range_for_api P s t = Inl e)
   \<and> (parse_date P s None = Inr x \<and> parse_date P t None = Inr y \<and> parse_date P u None = Inl e \<longrightarrow>
        is_date_in_range P s t u = Inl e)
   \<and> (try_formats s [''%d/%m/%Y'', ''%m/%d/%Y'', ''%Y-%m-%d'', ''%d-%m-%Y'', ''%m-%d-%Y''] = None
        \<and> P s (f = DMY) = Inl e \<longrightarrow>
        to_page_format P s f = s)"
proof (intro conjI impI)
  show "parse_date P ''not-a-date'' None = Inl (InvalidLiteral ''not'')"
    by (simp add: eval_defs)
  show "parse_date P ''not-a-date'' (Some f) = P ''not-a-date'' (f = DMY)"
    by (simp add: eval_defs)
next
  assume a: "parse_date P s None = Inl e"
  show "format_for_api P s = Inl e" using a by (simp add: format_for_api_def)
  show "parse_range P s t = Inl e" using a by (simp add: parse_range_def)
  show "is_date_in_range P s t u = Inl e" using a by (simp add: is_date_in_range_def)
  show "format_range_for_api P s t = Inl e"
    using a by (simp add: format_range_for_api_def format_for_api_def)
next
  assume a: "parse_date P s None = Inr x \<and> parse_date P t None = Inl e"
  show "parse_range P s t = Inl e" using a by (simp add: parse_range_def)
  show "is_date_in_range P s t u = Inl e"
    using a by (simp add: is_date_in_range_def parse_range_def)
  show "format_range_for_api P s t = Inl e"
    using a by (simp add: format_range_for_api_def format_for_api_def)
next
  assume a: "parse_date P s None = Inr x \<and> parse_date P t None = Inr y \<and> parse_date P u None = Inl e"
  show "is_date_in_range P s t u = Inl e"
    using a by (simp add: is_date_in_range_def parse_range_def)
next
  assume "try_formats s [''%d/%m/%Y'', ''%m/%d/%Y'', ''%Y-%m-%d'', ''%d-%m-%Y'', ''%m-%d-%Y''] = None
        \<and> P s (f = DMY) = Inl e"
  then show "to_page_format P s f = s" by (simp add: to_page_format_def)
qed

theorem failures_propagate_except_page_format_witness:
  "parse_date dateutil_sample ''not-a-date'' None = Inl (InvalidLiteral ''not'')
   \<and> parse_date dateutil_sample ''01/01/2025'' None = Inr (date_of 2025 1 1)
   \<and> parse_date dateutil_sample ''31/03/2025'' None = Inr (date_of 2025 3 31)
   \<and> format_for_api dateutil_sample ''not-a-date'' = Inl (InvalidLiteral ''not'')
   \<and> is_date_in_range dateutil_sample ''not-a-date'' ''01/01/2025'' ''31/03/2025''
        = Inl (InvalidLiteral ''not'')
   \<and> parse_range dateutil_sample ''01/01/2025'' ''not-a-date'' = Inl (InvalidLiteral ''not'')
   \<and> format_range_for_api dateutil_sample ''01/01/2025'' ''not-a-date''
        = Inl (InvalidLiteral ''not'')
   \<and> is_date_in_range dateutil_sample ''01/01/2025'' ''not-a-date'' ''31/03/2025''
        = Inl (InvalidLiteral ''not'')
   \<and> is_date_in_range dateutil_sample ''01/01/2025'' ''31/03/2025'' ''not-a-date''
        = Inl (InvalidLiteral ''not'')
   \<and> try_formats ''not-a-date'' [''%d/%m/%Y'', ''%m/%d/%Y'', ''%Y-%m-%d'', ''%d-%m-%Y'', ''%m-%d-%Y'']
        = None
   \<and> dateutil_sample ''not-a-date'' (DMY = DMY) = Inl (ParserError ''not-a-date'')
   \<and> to_page_format dateutil_sample ''not-a-date'' DMY = ''not-a-date''"
proof -
  have p: "parse_date dateutil_sample ''not-a-date'' None = Inl (InvalidLiteral ''not'')"
    using failures_propagate_except_page_format[of dateutil_sample] by (rule conjunct1)
  have q: "parse_date dateutil_sample ''01/01/2025'' None = Inr (date_of 2025 1 1)"
    "parse_date dateutil_sample ''31/03/2025'' None = Inr (date_of 2025 3 31)"
    by (simp_all add: eval_defs)
  note t1 = failures_propagate_except_page_format[of dateutil_sample DMY "''not-a-date''"
      "InvalidLiteral ''not''" "''01/01/2025''" "''31/03/2025''",
      THEN conjunct2, THEN conjunct2, THEN conjunct1]
  note t2 = failures_propagate_except_page_format[of dateutil_sample DMY "''01/01/2025''"
      "InvalidLiteral ''not''" "''not-a-date''" "''31/03/2025''" "date_of 2025 1 1",
      THEN conjunct2, THEN conjunct2, THEN conjunct2, THEN conjunct1]
  note t3 = failures_propagate_except_page_format[of dateutil_sample DMY "''01/01/2025''"
      "InvalidLiteral ''not''" "''31/03/2025''" "''not-a-date''" "date_of 2025 1 1"
      "date_of 2025 3 31",
      THEN conjunct2, THEN conjunct2, THEN conjunct2, THEN conjunct2, THEN conjunct1]
  note t4 = failures_propagate_except_page_format[of dateutil_sample DMY "''not-a-date''"
      "ParserError ''not-a-date''",
      THEN conjunct2, THEN conjunct2, THEN conjunct2, THEN conjunct2, THEN conjunct2]
  have 1: "format_for_api dateutil_sample ''not-a-date'' = Inl (InvalidLiteral ''not'')"
    "is_date_in_range dateutil_sample ''not-a-date'' ''01/01/2025'' ''31/03/2025''
        = Inl (InvalidLiteral ''not'')"
    using t1 p by simp_all
  have 2: "parse_range dateutil_sample ''01/01/2025'' ''not-a-date'' = Inl (InvalidLiteral ''not'')"
    "format_range_for_api dateutil_sample ''01/01/2025'' ''not-a-date''
        = Inl (InvalidLiteral ''not'')"
    "is_date_in_range dateutil_sample ''01/01/2025'' ''not-a-date'' ''31/03/2025''
        = Inl (InvalidLiteral ''not'')"
    using t2 p q by simp_all
  have 3: "is_date_in_range dateutil_sample ''01/01/2025'' ''31/03/2025'' ''not-a-date''
        = Inl (InvalidLiteral ''not'')"
    using t3 p q by simp
  have h: "try_formats ''not-a-date'' [''%d/%m/%Y'', ''%m/%d/%Y'', ''%Y-%m-%d'', ''%d-%m-%Y'', ''%m-%d-%Y'']
        = None"
    by (simp add: eval_defs)
  have d: "dateutil_sample ''not-a-date'' (DMY = DMY) = Inl (ParserError ''not-a-date'')"
    by (simp add: dateutil_sample_def)
  have 4: "to_page_format dateutil_sample ''not-a-date'' DMY = ''not-a-date''"
    using t4 h d by blast
  show ?thesis by (intro conjI p q 1 2 3 h d 4)
qed

theorem page_format_swallows_failure_counterexample:
  "parse_date dateutil_sample ''not-a-date'' (Some MDY) = Inl (ParserError ''not-a-date'')
   \<and> to_page_format dateutil_sample ''not-a-date'' MDY = ''not-a-date''
   \<and> parse_date dateutil_sample ''2025-02-30'' None = Inl OutOfRange"
  by (simp add: eval_defs)

text \<open>
  C6. The detector examines the extracted samples in order. The first sample with a field above
  12 decides: \<^verbatim>\<open>DMY\<close> when its first field exceeds 12, \<^verbatim>\<open>MDY\<close> when only its second
  field does; nothing after it is examined. With no decisive sample, and for an empty sequence,
  the result is the default \<^verbatim>\<open>MDY\<close>. The detector always returns a hint.
\<close>

theorem detector_first_decisive_sample:
  "(list_all found_by_patterns ds \<longrightarrow>
      detect_page_date_format ds =
        Inr (case find decisive ds of
               None \<Rightarrow> MDY
             | Some s \<Rightarrow> if 12 < field_val 0 s then DMY else MDY))
   \<and> (list_all found_by_patterns xs \<and> \<not> list_ex decisive xs \<and> found_by_patterns t
        \<and> 12 < field_val 0 t \<longrightarrow>
      detect_page_date_format (xs @ t # ys) = Inr DMY)
   \<and> (list_all found_by_patterns xs \<and> \<not> list_ex decisive xs \<and> found_by_patterns t
        \<and> field_val 0 t \<le> 12 \<and> 12 < field_val 1 t \<longrightarrow>
      detect_page_date_format (xs @ t # ys) = Inr MDY)
   \<and> detect_page_date_format [] = Inr MDY"
proof (intro conjI impI)
  assume "list_all found_by_patterns ds"
  then show "detect_page_date_format ds =
        Inr (case find decisive ds of
               None \<Rightarrow> MDY
             | Some s \<Rightarrow> if 12 < field_val 0 s then DMY else MDY)"
    by (rule detect_all)
next
  assume a: "list_all found_by_patterns xs \<and> \<not> list_ex decisive xs \<and> found_by_patterns t
        \<and> 12 < field_val 0 t"
  then have "decisive t" by (simp add: decisive_def)
  with a show "detect_page_date_format (xs @ t # ys) = Inr DMY"
    using detect_first_decisive[of xs t ys] by simp
next
  assume a: "list_all found_by_patterns xs \<and> \<not> list_ex decisive xs \<and> found_by_patterns t
        \<and> field_val 0 t \<le> 12 \<and> 12 < field_val 1 t"
  then have "decisive t" by (simp add: decisive_def)
  with a show "detect_page_date_format (xs @ t # ys) = Inr MDY"
    using detect_first_decisive[of xs t ys] by simp
next
  show "detect_page_date_format [] = Inr MDY" by simp
qed

lemmas detect_eval =
  found_by_patterns_def MDY_PATTERNS_def date_shape_def decisive_def field_val_def
  digits_val_def digit_val_def is_digit_def is_sep_def eval_nat_numeral

theorem detector_first_decisive_sample_witness:
  "list_all found_by_patterns [''02/02/2025'', ''13/01/2025'', ''01.02.2024'']
   \<and> detect_page_date_format [''02/02/2025'', ''13/01/2025'', ''01.02.2024''] = Inr DMY
   \<and> \<not> list_ex decisive [''02/02/2025''] \<and> found_by_patterns ''31-1-2025''
   \<and> 12 < field_val 0 ''31-1-2025''
   \<and> detect_page_date_format ([''02/02/2025''] @ ''31-1-2025'' # [''1/31/2025'', ''junk//'']) = Inr DMY
   \<and> found_by_patterns ''1/31/2025'' \<and> field_val 0 ''1/31/2025'' \<le> 12 \<and> 12 < field_val 1 ''1/31/2025''
   \<and> detect_page_date_format ([''02/02/2025''] @ ''1/31/2025'' # [''31-1-2025'', ''junk//'']) = Inr MDY"
proof -
  have a: "list_all found_by_patterns [''02/02/2025'', ''13/01/2025'', ''01.02.2024'']"
    by (simp add: detect_eval)
  have b: "list_all found_by_patterns [''02/02/2025'']" "\<not> list_ex decisive [''02/02/2025'']"
    by (simp_all add: detect_eval)
  have c: "found_by_patterns ''31-1-2025''" "12 < field_val 0 ''31-1-2025''"
    by (simp_all add: detect_eval)
  have d: "found_by_patterns ''1/31/2025''" "field_val 0 ''1/31/2025'' \<le> 12" "12 < field_val 1 ''1/31/2025''"
    by (simp_all add: detect_eval)
  have f: "find decisive [''02/02/2025'', ''13/01/2025'', ''01.02.2024''] = Some ''13/01/2025''"
    "12 < field_val 0 ''13/01/2025''"
    by (simp_all add: detect_eval)
  show ?thesis
    using a b c d f
      detector_first_decisive_sample[of "[''02/02/2025'', ''13/01/2025'', ''01.02.2024'']"
        "[''02/02/2025'']" "''31-1-2025''" "[''1/31/2025'', ''junk//'']"]
      detector_first_decisive_sample[of "[]" "[''02/02/2025'']" "''1/31/2025''" "[''31-1-2025'', ''junk//'']"]
    by simp
qed




text \<open>
  C8. For a slash-separated date with a four-digit year in which exactly one of the first two
  fields exceeds 12 (and the reading with that field as the day is a calendar date),
  \<^verbatim>\<open>parse_date\<close> with no hint returns that reading; in particular \<^verbatim>\<open>13/01/2025\<close> and
  \<^verbatim>\<open>01/13/2025\<close> both give 13 January 2025.
\<close>

theorem decisive_field_is_day:
  "(short_digits fa \<and> short_digits fb \<and> length yt = 4 \<and> all_digits yt
      \<and> 12 < digits_val fa \<and> valid_date (digits_val yt) (digits_val fb) (digits_val fa) \<longrightarrow>
        parse_date P (fa @ ''/'' @ fb @ ''/'' @ yt) None =
          Inr (date_of (digits_val yt) (digits_val fb) (digits_val fa)))
   \<and> (short_digits fa \<and> short_digits fb \<and> length yt = 4 \<and> all_digits yt
      \<and> 12 < digits_val fb \<and> valid_date (digits_val yt) (digits_val fa) (digits_val fb) \<longrightarrow>
        parse_date P (fa @ ''/'' @ fb @ ''/'' @ yt) None =
          Inr (date_of (digits_val yt) (digits_val fa) (digits_val fb)))
   \<and> parse_date P ''13/01/2025'' None = Inr (date_of 2025 1 13)
   \<and> parse_date P ''01/13/2025'' None = Inr (date_of 2025 1 13)"
proof (intro conjI impI)
  assume a: "short_digits fa \<and> short_digits fb \<and> length yt = 4 \<and> all_digits yt
      \<and> 12 < digits_val fa \<and> valid_date (digits_val yt) (digits_val fb) (digits_val fa)"
  then have s: "short_digits fa" "short_digits fb" "length yt = 4" "all_digits yt" by simp_all
  show "parse_date P (fa @ ''/'' @ fb @ ''/'' @ yt) None =
              Inr (date_of (digits_val yt) (digits_val fb) (digits_val fa))"
    using a parse_date_slash[OF s(1), of P "fb @ ''/'' @ yt" None] strptime_dmY_ok[OF s]
    by simp
next
  assume a: "short_digits fa \<and> short_digits fb \<and> length yt = 4 \<and> all_digits yt
      \<and> 12 < digits_val fb \<and> valid_date (digits_val yt) (digits_val fa) (digits_val fb)"
  then have s: "short_digits fa" "short_digits fb" "length yt = 4" "all_digits yt" by simp_all
  have "\<not> valid_date (digits_val yt) (digits_val fb) (digits_val fa)"
    using a by (simp add: valid_date_def)
  then obtain e where "strptime (fa @ ''/'' @ fb @ ''/'' @ yt) ''%d/%m/%Y'' = Inl e"
    using strptime_dmY_bad[OF s(1,2), of yt] by blast
  then show "parse_date P (fa @ ''/'' @ fb @ ''/'' @ yt) None =
              Inr (date_of (digits_val yt) (digits_val fa) (digits_val fb))"
    using a parse_date_slash[OF s(1), of P "fb @ ''/'' @ yt" None] strptime_mdY_ok[OF s]
    by simp
next
  show "parse_date P ''13/01/2025'' None = Inr (date_of 2025 1 13)"
    by (simp add: eval_defs)
next
  show "parse_date P ''01/13/2025'' None = Inr (date_of 2025 1 13)"
    by (simp add: eval_defs)
qed

theorem decisive_field_is_day_witness:
  "short_digits ''31'' \<and> short_digits ''7'' \<and> length ''1999'' = 4 \<and> all_digits ''1999''
   \<and> 12 < digits_val ''31'' \<and> valid_date (digits_val ''1999'') (digits_val ''7'') (digits_val ''31'')
   \<and> parse_date dateutil_sample ''31/7/1999'' None = Inr (date_of 1999 7 31)
   \<and> parse_date dateutil_sample ''7/31/1999'' None = Inr (date_of 1999 7 31)"
proof -
  have h: "short_digits ''31'' \<and> short_digits ''7'' \<and> length ''1999'' = 4 \<and> all_digits ''1999''"
    by (simp add: short_digits_def all_digits_def is_digit_def)
  have v: "digits_val ''31'' = 31" "digits_val ''7'' = 7" "digits_val ''1999'' = 1999"
    by (simp_all add: digits_val_def digit_val_def)
  have d: "valid_date 1999 7 31"
    by (simp add: valid_date_def days_in_month_def)
  show ?thesis
    using h v d
      decisive_field_is_day[of "''31''" "''7''" "''1999''" dateutil_sample]
      decisive_field_is_day[of "''7''" "''31''" "''1999''" dateutil_sample]
    by simp
qed




text \<open>
  C10 (as the code has it). For every input that \<^verbatim>\<open>parse_date\<close> accepts with a four-digit
  year, \<^verbatim>\<open>format_for_api\<close> produces a string that matches the strict ISO pattern, and parsing
  that string under any hint gives the calendar date of \<^verbatim>\<open>parse_date(s)\<close> as a naive
  datetime at midnight. This is \<^verbatim>\<open>parse_date(s)\<close> itself whenever that value is naive and
  carries no time of day, in particular whenever the ISO pattern or an explicit format
  resolves \<open>s\<close>.
\<close>

theorem api_rendering_is_canonical:
  "(parse_date P s None = Inr dt \<and> valid_date (year dt) (month dt) (day dt) \<and> 1000 \<le> year dt \<longrightarrow>
      (\<exists>iso. format_for_api P s = Inr iso \<and> iso_match iso
         \<and> parse_date P iso h = Inr (date_part dt)
         \<and> (at_midnight dt \<longrightarrow> parse_date P iso h = parse_date P s None)))
   \<and> (parse_date P s None = Inr dt \<and> resolved_explicitly s \<and> 1000 \<le> year dt \<longrightarrow>
      (\<exists>iso. format_for_api P s = Inr iso \<and> iso_match iso
         \<and> parse_date P iso h = parse_date P s None))"
proof (intro conjI impI)
  assume a: "parse_date P s None = Inr dt \<and> valid_date (year dt) (month dt) (day dt) \<and> 1000 \<le> year dt"
  then obtain iso where i: "format_for_api P s = Inr iso" "iso_match iso"
      "parse_date P iso h = Inr (date_part dt)"
    using format_for_api_reparse[of P s dt h] by blast
  have "at_midnight dt \<longrightarrow> parse_date P iso h = parse_date P s None"
    using i(3) a by (simp add: date_part_midnight)
  then show "\<exists>iso. format_for_api P s = Inr iso \<and> iso_match iso
         \<and> parse_date P iso h = Inr (date_part dt)
         \<and> (at_midnight dt \<longrightarrow> parse_date P iso h = parse_date P s None)"
    using i by blast
next
  assume a: "parse_date P s None = Inr dt \<and> resolved_explicitly s \<and> 1000 \<le> year dt"
  then have r: "at_midnight dt" "valid_date (year dt) (month dt) (day dt)"
    using resolved_explicitly_result[of s P None dt] by simp_all
  obtain iso where i: "format_for_api P s = Inr iso" "iso_match iso"
      "parse_date P iso h = Inr (date_part dt)"
    using format_for_api_reparse[of P s dt h] a r(2) by blast
  have "parse_date P iso h = parse_date P s None"
    using i(3) a r(1) by (simp add: date_part_midnight)
  then show "\<exists>iso. format_for_api P s = Inr iso \<and> iso_match iso
         \<and> parse_date P iso h = parse_date P s None"
    using i by blast
qed

theorem api_rendering_is_canonical_witness:
  "parse_date dateutil_sample ''01/03/99'' None = Inr (date_of 1999 1 3)
   \<and> valid_date 1999 1 3 \<and> (1000::nat) \<le> 1999 \<and> at_midnight (date_of 1999 1 3)
   \<and> (\<exists>iso. format_for_api dateutil_sample ''01/03/99'' = Inr iso \<and> iso_match iso
         \<and> parse_date dateutil_sample iso (Some DMY) = parse_date dateutil_sample ''01/03/99'' None)
   \<and> parse_date dateutil_sample ''31/03/2025'' None = Inr (date_of 2025 3 31)
   \<and> resolved_explicitly ''31/03/2025''
   \<and> (\<exists>iso. format_for_api dateutil_sample ''31/03/2025'' = Inr iso \<and> iso_match iso
         \<and> parse_date dateutil_sample iso (Some MDY) = parse_date dateutil_sample ''31/03/2025'' None)"
proof -
  have p: "parse_date dateutil_sample ''01/03/99'' None = Inr (date_of 1999 1 3)"
    "parse_date dateutil_sample ''31/03/2025'' None = Inr (date_of 2025 3 31)"
    by (simp_all add: eval_defs)
  have v: "valid_date 1999 1 3" "(1000::nat) \<le> 1999" "at_midnight (date_of 1999 1 3)"
    by (simp_all add: valid_date_def days_in_month_def at_midnight_def)
  have r: "resolved_explicitly ''31/03/2025''"
    by (simp add: resolved_explicitly_def eval_defs)
  have 1: "\<exists>iso. format_for_api dateutil_sample ''01/03/99'' = Inr iso \<and> iso_match iso
         \<and> parse_date dateutil_sample iso (Some DMY) = parse_date dateutil_sample ''01/03/99'' None"
    using api_rendering_is_canonical[of dateutil_sample "''01/03/99''" "date_of 1999 1 3" "Some DMY",
        THEN conjunct1] p(1) v
    by auto
  have 2: "\<exists>iso. format_for_api dateutil_sample ''31/03/2025'' = Inr iso \<and> iso_match iso
         \<and> parse_date dateutil_sample iso (Some MDY) = parse_date dateutil_sample ''31/03/2025'' None"
    using api_rendering_is_canonical[of dateutil_sample "''31/03/2025''" "date_of 2025 3 31" "Some MDY",
        THEN conjunct2] p(2) r
    by auto
  show ?thesis by (intro conjI p v r 1 2)
qed

theorem api_rendering_drops_time_counterexample:
  "format_for_api dateutil_sample ''2025-01-01 10:00'' = Inr ''2025-01-01''
   \<and> parse_date dateutil_sample ''2025-01-01'' (Some MDY) = Inr (date_of 2025 1 1)
   \<and> parse_date dateutil_sample ''2025-01-01 10:00'' None = Inr ((date_of 2025 1 1)\<lparr>hour := 10\<rparr>)
   \<and> date_of 2025 1 1 \<noteq> (date_of 2025 1 1)\<lparr>hour := 10\<rparr>"
  by (simp add: eval_defs date_of_def)

end
